theory Spec2Isabelle
  imports Main "HOL-Library.AList" "HOL-Library.Monad_Syntax"
begin

section \<open>JavaScript values and the object store\<close>

text \<open>
  The saga works on untyped data: the worker response, the evaluation output, the
  configuration of a dynamic fetch, the data tree and the API response are all reached
  through property reads, \<^verbatim>\<open>in\<close> tests and truthiness tests. They are modelled as
  values of \<open>jsval\<close>. An object is either a literal \<open>JObj\<close> (an association list of own
  properties in enumeration order, never written to) or a reference \<open>JRef\<close> into the
  store, which holds the objects the saga assigns to. Numbers are integers. Only own
  properties are modelled, and a new key is enumerated after the existing ones (the
  keys here are form ids, field paths and parameter names, not array indices).
\<close>

datatype jsval =
    JUndefined
  | JNull
  | JBool bool
  | JNum int
  | JStr string
  | JArr "jsval list"
  | JObj "(string \<times> jsval) list"
  | JRef nat

type_synonym props = "(string \<times> jsval) list"

record store =
  objs :: "nat \<Rightarrow> props"
  nxt :: nat

text \<open>\<^verbatim>\<open>!!v\<close>\<close>

fun truthy :: "jsval \<Rightarrow> bool" where
  "truthy JUndefined = False"
| "truthy JNull = False"
| "truthy (JBool b) = b"
| "truthy (JNum n) = (n \<noteq> 0)"
| "truthy (JStr s) = (s \<noteq> [])"
| "truthy (JArr xs) = True"
| "truthy (JObj ps) = True"
| "truthy (JRef a) = True"

fun nullish :: "jsval \<Rightarrow> bool" where
  "nullish JUndefined = True"
| "nullish JNull = True"
| "nullish v = False"

text \<open>\<^verbatim>\<open>typeof v === "object"\<close> for a value that is not null.\<close>

fun is_object :: "jsval \<Rightarrow> bool" where
  "is_object (JArr xs) = True"
| "is_object (JObj ps) = True"
| "is_object (JRef a) = True"
| "is_object v = False"

definition digit :: "nat \<Rightarrow> char" where
  "digit n = ''0123456789'' ! n"

function string_of_nat :: "nat \<Rightarrow> string" where
  "string_of_nat n =
     (if n < 10 then [digit n] else string_of_nat (n div 10) @ [digit (n mod 10)])"
  by pat_completeness auto
termination
  by (relation "measure id") auto

definition index_props :: "jsval list \<Rightarrow> props" where
  "index_props xs = zip (map string_of_nat [0..<length xs]) xs"

text \<open>
  The own enumerable string-keyed properties of a value, as \<^verbatim>\<open>Object.entries\<close>, object
  spread and \<^verbatim>\<open>Object.assign\<close> see them.
\<close>

fun own_props :: "store \<Rightarrow> jsval \<Rightarrow> props" where
  "own_props s (JObj ps) = ps"
| "own_props s (JRef a) = objs s a"
| "own_props s (JArr xs) = index_props xs"
| "own_props s (JStr cs) = index_props (map (\<lambda>c. JStr [c]) cs)"
| "own_props s v = []"

definition lookup :: "props \<Rightarrow> string \<Rightarrow> jsval" where
  "lookup ps k = (case map_of ps k of None \<Rightarrow> JUndefined | Some v \<Rightarrow> v)"

text \<open>
  A property read \<^verbatim>\<open>v.k\<close> or \<^verbatim>\<open>v[k]\<close>, and the destructuring \<^verbatim>\<open>const { k } = v\<close>: a
  TypeError (\<open>None\<close>) on undefined and null, the own property or undefined otherwise.
\<close>

fun js_get :: "store \<Rightarrow> jsval \<Rightarrow> string \<Rightarrow> jsval option" where
  "js_get s JUndefined k = None"
| "js_get s JNull k = None"
| "js_get s (JArr xs) k =
     Some (if k = ''length'' then JNum (int (length xs)) else lookup (index_props xs) k)"
| "js_get s (JStr cs) k =
     Some (if k = ''length'' then JNum (int (length cs))
           else lookup (index_props (map (\<lambda>c. JStr [c]) cs)) k)"
| "js_get s v k = Some (lookup (own_props s v) k)"

text \<open>Optional chaining \<^verbatim>\<open>v?.k\<close>.\<close>

definition js_opt_get :: "store \<Rightarrow> jsval \<Rightarrow> string \<Rightarrow> jsval option" where
  "js_opt_get s v k = (if nullish v then Some JUndefined else js_get s v k)"

text \<open>\<^verbatim>\<open>k in v\<close>: a TypeError when the right operand is not an object.\<close>

fun js_in :: "store \<Rightarrow> string \<Rightarrow> jsval \<Rightarrow> bool option" where
  "js_in s k (JObj ps) = Some (k \<in> set (map fst ps))"
| "js_in s k (JRef a) = Some (k \<in> set (map fst (objs s a)))"
| "js_in s k (JArr xs) = Some (k = ''length'' \<or> k \<in> set (map fst (index_props xs)))"
| "js_in s k v = None"

text \<open>\<^verbatim>\<open>Object.entries(v)\<close> and \<^verbatim>\<open>Object.keys(v)\<close>: a TypeError on undefined and null.\<close>

definition js_entries :: "store \<Rightarrow> jsval \<Rightarrow> props option" where
  "js_entries s v = (if nullish v then None else Some (own_props s v))"

definition js_keys :: "store \<Rightarrow> jsval \<Rightarrow> string list option" where
  "js_keys s v = (if nullish v then None else Some (map fst (own_props s v)))"

text \<open>
  \<^verbatim>\<open>{ ...a, ...b }\<close>: the properties of \<open>b\<close> are defined one by one on a copy of \<open>a\<close>; an
  existing key keeps its place and takes the new value.
\<close>

definition spread :: "props \<Rightarrow> props \<Rightarrow> props" where
  "spread a b = fold (\<lambda>(k, v). AList.update k v) b a"

text \<open>
  An assignment \<^verbatim>\<open>target.k = v\<close> in strict-mode module code: it updates a store object
  and is a TypeError on undefined, null, a primitive and a frozen literal.
\<close>

fun js_assign :: "store \<Rightarrow> jsval \<Rightarrow> string \<Rightarrow> jsval \<Rightarrow> store option" where
  "js_assign s (JRef a) k v = Some (s\<lparr>objs := (objs s)(a := AList.update k v (objs s a))\<rparr>)"
| "js_assign s t k v = None"

definition set_field :: "store \<Rightarrow> nat \<Rightarrow> string \<Rightarrow> jsval \<Rightarrow> store" where
  "set_field s a k v = s\<lparr>objs := (objs s)(a := AList.update k v (objs s a))\<rparr>"

definition field :: "store \<Rightarrow> nat \<Rightarrow> string \<Rightarrow> jsval" where
  "field s a k = lookup (objs s a) k"

text \<open>\<^verbatim>\<open>Object.assign({}, src)\<close>: a new store object with the own properties of \<open>src\<close>.\<close>

definition object_assign_new :: "store \<Rightarrow> jsval \<Rightarrow> store \<times> nat" where
  "object_assign_new s src =
     (s\<lparr>objs := (objs s)(nxt s := spread [] (own_props s src)), nxt := Suc (nxt s)\<rparr>, nxt s)"

text \<open>
  The number a value converts to in a relational comparison (\<open>None\<close> is NaN): covered
  are undefined, null, booleans, numbers and strings of decimal digits.
\<close>

fun digit_val :: "char \<Rightarrow> nat option" where
  "digit_val c = (if c \<in> set ''0123456789'' then Some (of_char c - 48) else None)"

fun digits_val :: "nat \<Rightarrow> string \<Rightarrow> nat option" where
  "digits_val acc [] = Some acc"
| "digits_val acc (c # cs) =
     (case digit_val c of None \<Rightarrow> None | Some d \<Rightarrow> digits_val (10 * acc + d) cs)"

fun to_number :: "jsval \<Rightarrow> int option" where
  "to_number JUndefined = None"
| "to_number JNull = Some 0"
| "to_number (JBool b) = Some (if b then 1 else 0)"
| "to_number (JNum n) = Some n"
| "to_number (JStr cs) = map_option int (digits_val 0 cs)"
| "to_number v = None"

text \<open>\<^verbatim>\<open>v > 0\<close>\<close>

definition js_gt_zero :: "jsval \<Rightarrow> bool" where
  "js_gt_zero v = (case to_number v of None \<Rightarrow> False | Some n \<Rightarrow> 0 < n)"

fun join_comma :: "string list \<Rightarrow> string" where
  "join_comma [] = []"
| "join_comma [x] = x"
| "join_comma (x # y # ys) = x @ '','' @ join_comma (y # ys)"

text \<open>The property key a value converts to in \<^verbatim>\<open>obj[v]\<close>.\<close>

fun to_key :: "jsval \<Rightarrow> string" where
  "to_key JUndefined = ''undefined''"
| "to_key JNull = ''null''"
| "to_key (JBool b) = (if b then ''true'' else ''false'')"
| "to_key (JNum n) = (if n < 0 then CHR ''-'' # string_of_nat (nat (- n)) else string_of_nat (nat n))"
| "to_key (JStr cs) = cs"
| "to_key (JArr xs) = join_comma (map (\<lambda>x. if nullish x then [] else to_key x) xs)"
| "to_key (JObj ps) = ''[object Object]''"
| "to_key (JRef a) = ''[object Object]''"

section \<open>Actions, effects and the helpers the saga imports\<close>

text \<open>\<^verbatim>\<open>FormEvalActionPayload\<close> and the action that carries it.\<close>

record FormEvalActionPayload =
  formId :: string
  datasourceId :: "string option"
  pluginId :: "string option"
  actionConfiguration :: "jsval option"
  editorConfig :: "jsval option"
  settingConfig :: "jsval option"
  actionDiffPath :: "string option"
  hasRouteChanged :: "bool option"

record ReduxAction =
  actionType :: string
  payload :: FormEvalActionPayload

text \<open>
  What is thrown: a TypeError of the language itself, or the value an external
  collaborator throws into the generator at a \<^verbatim>\<open>yield\<close>.
\<close>

datatype error = TypeError | Thrown jsval

text \<open>What the middleware passes back into a generator at a \<^verbatim>\<open>yield\<close>.\<close>

datatype resp = Ret jsval | Thr jsval

text \<open>
  The observable trace: every effect a generator yields, every call of one saga by
  another, and every \<^verbatim>\<open>log.error\<close>.
\<close>

datatype event =
    Select string "jsval list"
  | CallEvalFormConfig ReduxAction jsval
  | Put string jsval
  | Fork ReduxAction
  | Race "string list"
  | Delay nat
  | CallFetchDynamicValuesSaga jsval string jsval string string
  | CallFetchDynamicValueSaga jsval jsval string string string string
  | CallFetchDynamicFormValues jsval jsval
  | LogError error

text \<open>
  The functions imported from modules outside this file (lines 19 to 26) are parameters
  of the model; \<open>None\<close> is a call that throws. \<^verbatim>\<open>get\<close> of lodash does not throw; it
  is given the store as well, since the object it reads may hold references.
\<close>

record helpers =
  defaultDynamicTriggerURL :: "string \<Rightarrow> jsval"
  getDynamicBindings :: "jsval \<Rightarrow> jsval option"
  getDataTreeActionConfigPath :: "jsval \<Rightarrow> jsval option"
  isDynamicValue :: "jsval \<Rightarrow> jsval option"
  get :: "store \<Rightarrow> jsval \<Rightarrow> jsval \<Rightarrow> jsval"

section \<open>Program points\<close>

text \<open>
  A generator is suspended at a \<^verbatim>\<open>yield\<close> with its live local variables.
  \<open>fo_pc\<close> are the program points of \<^verbatim>\<open>fetchDynamicValueSaga\<close>: the two selects
  (lines 191 and 192), the API call (line 242) and the return (line 267).
\<close>

record fo_frame =
  fo_dyn :: nat
  fo_actionId :: string
  fo_datasourceId :: string
  fo_pluginId :: string
  fo_configProperty :: string
  fo_config :: jsval
  fo_params :: jsval
  fo_url :: jsval
  fo_action :: jsval

datatype fo_pc =
    FoSelectAction fo_frame
  | FoSelectTree fo_frame
  | FoCallApi fo_frame
  | FoReturn

text \<open>
  \<open>fa_pc\<close> are the program points of \<^verbatim>\<open>fetchDynamicValuesSaga\<close>: inside the call of
  line 141 (with the keys still to visit, the object \<^verbatim>\<open>evalOutput[key]\<close> that the
  result will be assigned to, the copy handed to the callee, and the program point of
  the callee), at the put of line 152, returned, or left by an exception.
\<close>

record fa_frame =
  fa_queue :: jsval
  fa_formId :: string
  fa_evalOutput :: jsval
  fa_datasourceId :: string
  fa_pluginId :: string

datatype fa_pc =
    FaFetching fa_frame "string list" jsval nat fo_pc
  | FaPut fa_frame
  | FaReturn
  | FaThrown error

text \<open>
  \<open>pc\<close> are the program points of \<^verbatim>\<open>setFormEvaluationSagaAsync\<close>: the select of line
  75, the call of line 79, the put of line 85 (with \<^verbatim>\<open>workerResponse\<close>), the race of
  line 107 and the delay of line 112 (with \<^verbatim>\<open>evalOutput\<close> and the queue of values to
  fetch), inside the call of line 115, after the push of line 69, at the end of the
  try block, and at the end of the catch block.
\<close>

datatype pc =
    AtSelect ReduxAction
  | AtEval ReduxAction
  | AtPut ReduxAction jsval
  | AtRace ReduxAction jsval jsval
  | AtDelay ReduxAction jsval jsval
  | AtFetch ReduxAction fa_pc
  | Enqueued
  | Finished
  | Caught

text \<open>
  The module state (\<^verbatim>\<open>isEvaluating\<close>, \<^verbatim>\<open>evalQueue\<close>), the object store, the tasks
  forked so far with the action each was forked with, and the trace.
\<close>

record sys =
  isEvaluating :: bool
  evalQueue :: "ReduxAction list"
  heap :: store
  tasks :: "(ReduxAction \<times> pc) list"
  trace :: "event list"

definition emit :: "event \<Rightarrow> sys \<Rightarrow> sys" where
  "emit e \<sigma> = \<sigma>\<lparr>trace := trace \<sigma> @ [e]\<rparr>"

definition setIsEvaluating :: "bool \<Rightarrow> sys \<Rightarrow> sys" where
  "setIsEvaluating newState \<sigma> = \<sigma>\<lparr>isEvaluating := newState\<rparr>"

section \<open>extractQueueOfValuesToBeFetched\<close>

text \<open>The condition of lines 52 to 57, with the short circuit of \<^verbatim>\<open>&&\<close>.\<close>

definition allowed_to_fetch :: "store \<Rightarrow> jsval \<Rightarrow> bool option" where
  "allowed_to_fetch s v = do {
     a \<leftarrow> js_in s ''fetchDynamicValues'' v;
     if \<not> a then Some False else do {
       fdv \<leftarrow> js_get s v ''fetchDynamicValues'';
       if \<not> truthy fdv then Some False else do {
         b \<leftarrow> js_in s ''allowedToFetch'' fdv;
         if \<not> b then Some False else do {
           atf \<leftarrow> js_get s fdv ''allowedToFetch'';
           Some (truthy atf)
         }
       }
     }
   }"

fun extract_loop :: "store \<Rightarrow> props \<Rightarrow> props \<Rightarrow> props option" where
  "extract_loop s [] output = Some output"
| "extract_loop s ((key, v) # es) output = do {
     c \<leftarrow> allowed_to_fetch s v;
     extract_loop s es (if c then spread output [(key, v)] else output)
   }"

definition extractQueueOfValuesToBeFetched :: "store \<Rightarrow> jsval \<Rightarrow> jsval option" where
  "extractQueueOfValuesToBeFetched s evalOutput = do {
     es \<leftarrow> js_entries s evalOutput;
     output \<leftarrow> extract_loop s es [];
     Some (JObj output)
   }"

section \<open>fetchDynamicValueSaga\<close>

text \<open>Lines 167 to 171: the two destructurings.\<close>

definition fo_destructure :: "store \<Rightarrow> jsval \<Rightarrow> (jsval \<times> jsval \<times> jsval) option" where
  "fo_destructure s v = do {
     fdv \<leftarrow> js_get s v ''fetchDynamicValues'';
     config \<leftarrow> js_get s fdv ''config'';
     evaluatedConfig \<leftarrow> js_get s fdv ''evaluatedConfig'';
     params \<leftarrow> js_get s evaluatedConfig ''params'';
     Some (config, evaluatedConfig, params)
   }"

text \<open>Lines 175 to 182: the URL of the request.\<close>

definition fo_choose_url :: "helpers \<Rightarrow> store \<Rightarrow> jsval \<Rightarrow> string \<Rightarrow> jsval option" where
  "fo_choose_url hp s evaluatedConfig dsId =
     (let url = defaultDynamicTriggerURL hp dsId in do {
        has \<leftarrow> js_in s ''url'' evaluatedConfig;
        if \<not> has then Some url else do {
          u \<leftarrow> js_get s evaluatedConfig ''url'';
          if \<not> truthy u then Some url else do {
            l \<leftarrow> js_get s u ''length'';
            Some (if js_gt_zero l then u else url)
          }
        }
      })"

text \<open>Lines 194 to 196.\<close>

definition fo_evalAction :: "store \<Rightarrow> jsval \<Rightarrow> jsval \<Rightarrow> jsval option" where
  "fo_evalAction s action dataTree =
     (if truthy action then do {
        n \<leftarrow> js_get s action ''name'';
        js_get s dataTree (to_key n)
      } else Some JUndefined)"

text \<open>Lines 202 to 212: the evaluated value of one parameter.\<close>

definition fo_evaluatedValue :: "helpers \<Rightarrow> store \<Rightarrow> jsval \<Rightarrow> jsval \<Rightarrow> jsval option" where
  "fo_evaluatedValue hp s evalAction v = do {
     b \<leftarrow> getDynamicBindings hp v;
     dynamicBindingValue \<leftarrow>
       (if nullish b then Some JUndefined
        else do { js \<leftarrow> js_get s b ''jsSnippets''; js_get s js ''0'' });
     dataTreeActionConfigPath \<leftarrow> getDataTreeActionConfigPath hp dynamicBindingValue;
     ev \<leftarrow> js_opt_get s evalAction ''__evaluation__'';
     evs \<leftarrow> js_opt_get s ev ''evaluatedValues'';
     Some (get hp s evs dataTreeActionConfigPath)
   }"

text \<open>Lines 200 to 223: the body of the \<^verbatim>\<open>forEach\<close>, over the entries in order.\<close>

fun fo_substitute :: "helpers \<Rightarrow> store \<Rightarrow> jsval \<Rightarrow> props \<Rightarrow> props \<Rightarrow> props option" where
  "fo_substitute hp s evalAction [] substitutedParameters = Some substitutedParameters"
| "fo_substitute hp s evalAction ((key, v) # es) substitutedParameters = do {
     evaluatedValue \<leftarrow> fo_evaluatedValue hp s evalAction v;
     if truthy evaluatedValue then do {
       d \<leftarrow> isDynamicValue hp evaluatedValue;
       fo_substitute hp s evalAction es
         (spread substitutedParameters
            [(key, if truthy d then JStr [] else evaluatedValue)])
     } else fo_substitute hp s evalAction es substitutedParameters
   }"

text \<open>Lines 189 and 199 to 224.\<close>

definition fo_substitutedParameters :: "helpers \<Rightarrow> store \<Rightarrow> jsval \<Rightarrow> jsval \<Rightarrow> props option" where
  "fo_substitutedParameters hp s config evalAction = do {
     cp \<leftarrow> js_opt_get s config ''params'';
     has \<leftarrow> js_in s ''parameters'' cp;
     if has \<and> truthy evalAction then do {
       ps \<leftarrow> (if nullish config then Some JUndefined else js_get s cp ''parameters'');
       es \<leftarrow> js_entries s ps;
       fo_substitute hp s evalAction es []
     } else Some []
   }"

text \<open>Lines 227 to 239.\<close>

definition fo_evaluatedParams :: "store \<Rightarrow> jsval \<Rightarrow> props \<Rightarrow> props option" where
  "fo_evaluatedParams s params substitutedParameters = do {
     has \<leftarrow> js_in s ''parameters'' params;
     if has then do {
       pp \<leftarrow> js_get s params ''parameters'';
       Some (spread (spread [] (own_props s params))
               [(''parameters'', JObj (spread (spread [] (own_props s pp)) substitutedParameters))])
     } else Some (spread [] (own_props s params))
   }"

text \<open>Lines 194 to 252: the body of the request, from the two selected values.\<close>

definition fo_request :: "helpers \<Rightarrow> store \<Rightarrow> fo_frame \<Rightarrow> jsval \<Rightarrow> props option" where
  "fo_request hp s L dataTree = do {
     evalAction \<leftarrow> fo_evalAction s (fo_action L) dataTree;
     substitutedParameters \<leftarrow> fo_substitutedParameters hp s (fo_config L) evalAction;
     evaluatedParams \<leftarrow> fo_evaluatedParams s (fo_params L) substitutedParameters;
     Some (spread [(''actionId'', JStr (fo_actionId L)),
                   (''configProperty'', JStr (fo_configProperty L)),
                   (''datasourceId'', JStr (fo_datasourceId L)),
                   (''pluginId'', JStr (fo_pluginId L))] evaluatedParams)
   }"

text \<open>
  Line 254: \<open>Some (Some t)\<close> when the status is 200 and the body has a trigger \<open>t\<close>,
  \<open>Some None\<close> when not, \<open>None\<close> when the test throws.
\<close>

definition fo_response :: "store \<Rightarrow> jsval \<Rightarrow> jsval option option" where
  "fo_response s response = do {
     rm \<leftarrow> js_get s response ''responseMeta'';
     status \<leftarrow> js_get s rm ''status'';
     if status = JNum 200 then do {
       d \<leftarrow> js_get s response ''data'';
       t \<leftarrow> js_in s ''trigger'' d;
       if t then do { p \<leftarrow> js_get s d ''trigger''; Some (Some p) } else Some None
     } else Some None
   }"

definition put_field :: "nat \<Rightarrow> string \<Rightarrow> jsval \<Rightarrow> sys \<Rightarrow> sys" where
  "put_field a k v \<sigma> = \<sigma>\<lparr>heap := set_field (heap \<sigma>) a k v\<rparr>"

text \<open>Lines 261 to 267: the catch block and the return.\<close>

definition fo_catch :: "error \<Rightarrow> nat \<Rightarrow> sys \<Rightarrow> sys \<times> fo_pc" where
  "fo_catch e dyn \<sigma> =
     (put_field dyn ''data'' (JArr [])
        (put_field dyn ''isLoading'' (JBool False)
          (put_field dyn ''hasFetchFailed'' (JBool True) (emit (LogError e) \<sigma>))),
      FoReturn)"

text \<open>From the entry of the generator to its first \<^verbatim>\<open>yield\<close> (lines 166 to 191).\<close>

definition fo_start ::
  "helpers \<Rightarrow> jsval \<Rightarrow> nat \<Rightarrow> string \<Rightarrow> string \<Rightarrow> string \<Rightarrow> string \<Rightarrow> sys \<Rightarrow> sys \<times> fo_pc" where
  "fo_start hp v dyn actionId dsId plId configProperty \<sigma> =
     (case fo_destructure (heap \<sigma>) v of
        None \<Rightarrow> fo_catch TypeError dyn \<sigma>
      | Some (config, evaluatedConfig, params) \<Rightarrow>
          (let \<sigma>1 = put_field dyn ''hasStarted'' (JBool True) \<sigma> in
           case fo_choose_url hp (heap \<sigma>1) evaluatedConfig dsId of
             None \<Rightarrow> fo_catch TypeError dyn \<sigma>1
           | Some url \<Rightarrow>
               (emit (Select ''getAction'' [JStr actionId]) \<sigma>1,
                FoSelectAction \<lparr>fo_dyn = dyn, fo_actionId = actionId, fo_datasourceId = dsId,
                  fo_pluginId = plId, fo_configProperty = configProperty, fo_config = config,
                  fo_params = params, fo_url = url, fo_action = JUndefined\<rparr>)))"

text \<open>From one \<^verbatim>\<open>yield\<close> to the next, with what the middleware passes back.\<close>

fun fo_resume :: "helpers \<Rightarrow> fo_pc \<Rightarrow> resp \<Rightarrow> sys \<Rightarrow> sys \<times> fo_pc" where
  "fo_resume hp (FoSelectAction L) (Thr x) \<sigma> = fo_catch (Thrown x) (fo_dyn L) \<sigma>"
| "fo_resume hp (FoSelectAction L) (Ret action) \<sigma> =
     (emit (Select ''getDataTree'' []) \<sigma>, FoSelectTree (L\<lparr>fo_action := action\<rparr>))"
| "fo_resume hp (FoSelectTree L) (Thr x) \<sigma> = fo_catch (Thrown x) (fo_dyn L) \<sigma>"
| "fo_resume hp (FoSelectTree L) (Ret dataTree) \<sigma> =
     (case fo_request hp (heap \<sigma>) L dataTree of
        None \<Rightarrow> fo_catch TypeError (fo_dyn L) \<sigma>
      | Some body \<Rightarrow> (emit (CallFetchDynamicFormValues (fo_url L) (JObj body)) \<sigma>, FoCallApi L))"
| "fo_resume hp (FoCallApi L) (Thr x) \<sigma> = fo_catch (Thrown x) (fo_dyn L) \<sigma>"
| "fo_resume hp (FoCallApi L) (Ret response) \<sigma> =
     (let \<sigma>1 = put_field (fo_dyn L) ''isLoading'' (JBool False) \<sigma> in
      case fo_response (heap \<sigma>1) response of
        None \<Rightarrow> fo_catch TypeError (fo_dyn L) \<sigma>1
      | Some (Some t) \<Rightarrow>
          (put_field (fo_dyn L) ''hasFetchFailed'' (JBool False) (put_field (fo_dyn L) ''data'' t \<sigma>1),
           FoReturn)
      | Some None \<Rightarrow>
          (put_field (fo_dyn L) ''data'' (JArr [])
             (put_field (fo_dyn L) ''hasFetchFailed'' (JBool True) \<sigma>1),
           FoReturn))"
| "fo_resume hp FoReturn r \<sigma> = (\<sigma>, FoReturn)"

text \<open>
  The generator run against the responses of the middleware, in the order of its
  yields; it stops when the generator has returned or the responses are used up.
\<close>

fun fo_run :: "helpers \<Rightarrow> resp list \<Rightarrow> sys \<times> fo_pc \<Rightarrow> sys \<times> fo_pc" where
  "fo_run hp [] c = c"
| "fo_run hp (r # rs) (\<sigma>, p) = (if p = FoReturn then (\<sigma>, p) else fo_run hp rs (fo_resume hp p r \<sigma>))"

definition fetchDynamicValueSaga ::
  "helpers \<Rightarrow> jsval \<Rightarrow> nat \<Rightarrow> string \<Rightarrow> string \<Rightarrow> string \<Rightarrow> string \<Rightarrow> resp list \<Rightarrow> sys
     \<Rightarrow> sys \<times> fo_pc" where
  "fetchDynamicValueSaga hp v dyn actionId dsId plId configProperty rs \<sigma> =
     fo_run hp rs (fo_start hp v dyn actionId dsId plId configProperty \<sigma>)"

section \<open>fetchDynamicValuesSaga\<close>

text \<open>
  Line 141 to 149, up to the call: the object \<^verbatim>\<open>evalOutput[key]\<close> of the left-hand
  side, then the arguments \<^verbatim>\<open>queueOfValuesToBeFetched[key]\<close> and
  \<^verbatim>\<open>evalOutput[key].fetchDynamicValues\<close>.
\<close>

definition fa_operands :: "store \<Rightarrow> fa_frame \<Rightarrow> string \<Rightarrow> (jsval \<times> jsval \<times> jsval) option" where
  "fa_operands s F key = do {
     target \<leftarrow> js_get s (fa_evalOutput F) key;
     v \<leftarrow> js_get s (fa_queue F) key;
     fdv \<leftarrow> js_get s target ''fetchDynamicValues'';
     Some (target, v, fdv)
   }"

text \<open>
  The loop of lines 140 to 150 from the head of an iteration, and the put of line 152
  when no key is left. A callee that returns without suspending is assigned at once.
\<close>

fun fa_loop :: "helpers \<Rightarrow> fa_frame \<Rightarrow> string list \<Rightarrow> sys \<Rightarrow> sys \<times> fa_pc" where
  "fa_loop hp F [] \<sigma> =
     (emit (Put ''SET_FORM_EVALUATION'' (JObj [(fa_formId F, fa_evalOutput F)])) \<sigma>, FaPut F)"
| "fa_loop hp F (key # ks) \<sigma> =
     (case fa_operands (heap \<sigma>) F key of
        None \<Rightarrow> (\<sigma>, FaThrown TypeError)
      | Some (target, v, fdv) \<Rightarrow>
          (case object_assign_new (heap \<sigma>) fdv of (h, dyn) \<Rightarrow>
           case fo_start hp v dyn (fa_formId F) (fa_datasourceId F) (fa_pluginId F) key
                  (emit (CallFetchDynamicValueSaga v (JRef dyn) (fa_formId F)
                           (fa_datasourceId F) (fa_pluginId F) key) (\<sigma>\<lparr>heap := h\<rparr>)) of
             (\<sigma>1, p) \<Rightarrow>
               if p = FoReturn then
                 (case js_assign (heap \<sigma>1) target ''fetchDynamicValues'' (JRef dyn) of
                    None \<Rightarrow> (\<sigma>1, FaThrown TypeError)
                  | Some h1 \<Rightarrow> fa_loop hp F ks (\<sigma>1\<lparr>heap := h1\<rparr>))
               else (\<sigma>1, FaFetching F ks target dyn p)))"

text \<open>From the entry of the generator to its first \<^verbatim>\<open>yield\<close>.\<close>

definition fa_start :: "helpers \<Rightarrow> fa_frame \<Rightarrow> sys \<Rightarrow> sys \<times> fa_pc" where
  "fa_start hp F \<sigma> =
     (case js_keys (heap \<sigma>) (fa_queue F) of
        None \<Rightarrow> (\<sigma>, FaThrown TypeError)
      | Some ks \<Rightarrow> fa_loop hp F ks \<sigma>)"

fun fa_resume :: "helpers \<Rightarrow> fa_pc \<Rightarrow> resp \<Rightarrow> sys \<Rightarrow> sys \<times> fa_pc" where
  "fa_resume hp (FaFetching F ks target dyn p) r \<sigma> =
     (case fo_resume hp p r \<sigma> of
        (\<sigma>1, p1) \<Rightarrow>
          if p1 = FoReturn then
            (case js_assign (heap \<sigma>1) target ''fetchDynamicValues'' (JRef dyn) of
               None \<Rightarrow> (\<sigma>1, FaThrown TypeError)
             | Some h1 \<Rightarrow> fa_loop hp F ks (\<sigma>1\<lparr>heap := h1\<rparr>))
          else (\<sigma>1, FaFetching F ks target dyn p1))"
| "fa_resume hp (FaPut F) (Thr x) \<sigma> = (\<sigma>, FaThrown (Thrown x))"
| "fa_resume hp (FaPut F) (Ret x) \<sigma> = (\<sigma>, FaReturn)"
| "fa_resume hp FaReturn r \<sigma> = (\<sigma>, FaReturn)"
| "fa_resume hp (FaThrown e) r \<sigma> = (\<sigma>, FaThrown e)"

fun fa_done :: "fa_pc \<Rightarrow> bool" where
  "fa_done FaReturn = True"
| "fa_done (FaThrown e) = True"
| "fa_done p = False"

fun fa_run :: "helpers \<Rightarrow> resp list \<Rightarrow> sys \<times> fa_pc \<Rightarrow> sys \<times> fa_pc" where
  "fa_run hp [] c = c"
| "fa_run hp (r # rs) (\<sigma>, p) = (if fa_done p then (\<sigma>, p) else fa_run hp rs (fa_resume hp p r \<sigma>))"

definition fetchDynamicValuesSaga ::
  "helpers \<Rightarrow> jsval \<Rightarrow> string \<Rightarrow> jsval \<Rightarrow> string \<Rightarrow> string \<Rightarrow> resp list \<Rightarrow> sys \<Rightarrow> sys \<times> fa_pc" where
  "fetchDynamicValuesSaga hp queueOfValuesToBeFetched fId evalOutput dsId plId rs \<sigma> =
     fa_run hp rs
       (fa_start hp \<lparr>fa_queue = queueOfValuesToBeFetched, fa_formId = fId,
          fa_evalOutput = evalOutput, fa_datasourceId = dsId, fa_pluginId = plId\<rparr> \<sigma>)"

section \<open>setFormEvaluationSagaAsync\<close>

text \<open>
  From the entry of the generator to its first \<^verbatim>\<open>yield\<close> (lines 68 to 75). The bare
  \<^verbatim>\<open>yield\<close> of line 70 yields no effect, and the generator has nothing left to do
  when it is resumed.
\<close>

definition setFormEvaluationSagaAsync :: "ReduxAction \<Rightarrow> sys \<Rightarrow> sys \<times> pc" where
  "setFormEvaluationSagaAsync action \<sigma> =
     (if isEvaluating \<sigma> then (\<sigma>\<lparr>evalQueue := evalQueue \<sigma> @ [action]\<rparr>, Enqueued)
      else (emit (Select ''getFormEvaluationState'' []) (setIsEvaluating True \<sigma>), AtSelect action))"

text \<open>
  \<^verbatim>\<open>fork(setFormEvaluationSagaAsync, action)\<close>: the new task runs to its first
  \<^verbatim>\<open>yield\<close> before the caller goes on.
\<close>

definition fork_task :: "ReduxAction \<Rightarrow> sys \<Rightarrow> sys" where
  "fork_task action \<sigma> =
     (case setFormEvaluationSagaAsync action \<sigma> of
        (\<sigma>1, p) \<Rightarrow> \<sigma>1\<lparr>tasks := tasks \<sigma>1 @ [(action, p)]\<rparr>)"

text \<open>Lines 125 to 128: the catch block.\<close>

definition seq_catch :: "error \<Rightarrow> sys \<Rightarrow> sys \<times> pc" where
  "seq_catch e \<sigma> = (setIsEvaluating False (emit (LogError e) \<sigma>), Caught)"

text \<open>Where the call of line 115 leaves the caller.\<close>

fun seq_fetch :: "ReduxAction \<Rightarrow> sys \<times> fa_pc \<Rightarrow> sys \<times> pc" where
  "seq_fetch action (\<sigma>, FaReturn) = (\<sigma>, Finished)"
| "seq_fetch action (\<sigma>, FaThrown e) = seq_catch e \<sigma>"
| "seq_fetch action (\<sigma>, p) = (\<sigma>, AtFetch action p)"

text \<open>Lines 90 to 107: from the end of the publish to the race.\<close>

definition after_publish :: "ReduxAction \<Rightarrow> jsval \<Rightarrow> sys \<Rightarrow> sys \<times> pc" where
  "after_publish action workerResponse \<sigma> =
     (let \<sigma>1 = setIsEvaluating False \<sigma> in
      case evalQueue \<sigma>1 of
        nextAction # rest \<Rightarrow>
          (fork_task nextAction (emit (Fork nextAction) (\<sigma>1\<lparr>evalQueue := rest\<rparr>)), Finished)
      | [] \<Rightarrow>
          (case js_get (heap \<sigma>1) workerResponse (formId (payload action)) of
             None \<Rightarrow> seq_catch TypeError \<sigma>1
           | Some evalOutput \<Rightarrow>
               if truthy evalOutput \<and> is_object evalOutput then
                 (case extractQueueOfValuesToBeFetched (heap \<sigma>1) evalOutput of
                    None \<Rightarrow> seq_catch TypeError \<sigma>1
                  | Some queueOfValuesToBeFetched \<Rightarrow>
                      (emit (Race [''SET_LOADING_ENTITIES'',
                                   ''SET_EVALUATION_INVERSE_DEPENDENCY_MAP'']) \<sigma>1,
                       AtRace action evalOutput queueOfValuesToBeFetched))
               else (\<sigma>1, Finished)))"

definition string_or_empty :: "string option \<Rightarrow> string" where
  "string_or_empty x = (case x of None \<Rightarrow> [] | Some v \<Rightarrow> v)"

text \<open>From one \<^verbatim>\<open>yield\<close> to the next, with what the middleware passes back.\<close>

fun resume :: "helpers \<Rightarrow> pc \<Rightarrow> resp \<Rightarrow> sys \<Rightarrow> sys \<times> pc" where
  "resume hp (AtSelect action) (Thr x) \<sigma> = seq_catch (Thrown x) \<sigma>"
| "resume hp (AtSelect action) (Ret currentEvalState) \<sigma> =
     (emit (CallEvalFormConfig action currentEvalState) \<sigma>, AtEval action)"
| "resume hp (AtEval action) (Thr x) \<sigma> = seq_catch (Thrown x) \<sigma>"
| "resume hp (AtEval action) (Ret workerResponse) \<sigma> =
     (if truthy workerResponse
      then (emit (Put ''SET_FORM_EVALUATION'' workerResponse) \<sigma>, AtPut action workerResponse)
      else after_publish action workerResponse \<sigma>)"
| "resume hp (AtPut action workerResponse) (Thr x) \<sigma> = seq_catch (Thrown x) \<sigma>"
| "resume hp (AtPut action workerResponse) (Ret x) \<sigma> = after_publish action workerResponse \<sigma>"
| "resume hp (AtRace action evalOutput q) (Thr x) \<sigma> = seq_catch (Thrown x) \<sigma>"
| "resume hp (AtRace action evalOutput q) (Ret x) \<sigma> =
     (emit (Delay 500) \<sigma>, AtDelay action evalOutput q)"
| "resume hp (AtDelay action evalOutput q) (Thr x) \<sigma> = seq_catch (Thrown x) \<sigma>"
| "resume hp (AtDelay action evalOutput q) (Ret x) \<sigma> =
     (let F = \<lparr>fa_queue = q, fa_formId = formId (payload action), fa_evalOutput = evalOutput,
                fa_datasourceId = string_or_empty (datasourceId (payload action)),
                fa_pluginId = string_or_empty (pluginId (payload action))\<rparr>
      in seq_fetch action
           (fa_start hp F
              (emit (CallFetchDynamicValuesSaga q (fa_formId F) evalOutput
                       (fa_datasourceId F) (fa_pluginId F)) \<sigma>)))"
| "resume hp (AtFetch action p) r \<sigma> = seq_fetch action (fa_resume hp p r \<sigma>)"
| "resume hp Enqueued r \<sigma> = (\<sigma>, Enqueued)"
| "resume hp Finished r \<sigma> = (\<sigma>, Finished)"
| "resume hp Caught r \<sigma> = (\<sigma>, Caught)"

section \<open>The scheduler\<close>

text \<open>
  The listener of lines 270 to 275 forks one task for every form evaluation action;
  the middleware resumes a suspended task with a value or an exception. Between two
  yields a task runs without interruption.
\<close>

datatype input = Submit ReduxAction | Resume nat resp

fun step :: "helpers \<Rightarrow> input \<Rightarrow> sys \<Rightarrow> sys" where
  "step hp (Submit action) \<sigma> = fork_task action \<sigma>"
| "step hp (Resume n r) \<sigma> =
     (if n < length (tasks \<sigma>) then
        (case tasks \<sigma> ! n of (action, p) \<Rightarrow>
         case resume hp p r \<sigma> of (\<sigma>1, p1) \<Rightarrow> \<sigma>1\<lparr>tasks := (tasks \<sigma>1)[n := (action, p1)]\<rparr>)
      else \<sigma>)"

definition run :: "helpers \<Rightarrow> input list \<Rightarrow> sys \<Rightarrow> sys" where
  "run hp ins \<sigma> = fold (step hp) ins \<sigma>"

definition idle :: "store \<Rightarrow> sys" where
  "idle s = \<lparr>isEvaluating = False, evalQueue = [], heap = s, tasks = [], trace = []\<rparr>"

section \<open>The binding helpers, from their description\<close>

text \<open>
  Modelled from the spec: \<^verbatim>\<open>getDynamicBindings\<close>, \<^verbatim>\<open>getDataTreeActionConfigPath\<close> and
  \<^verbatim>\<open>isDynamicValue\<close> are imported from modules that are not in this file. The
  description says of the first: strip the binding delimiters and take the first
  embedded expression; of the second: translate that expression into the path within
  the stored configuration, so that \<^verbatim>\<open>actionConfiguration.formData.x.data\<close> becomes
  \<^verbatim>\<open>formData.x.data\<close>; of the third: the value is still a dynamic-binding expression.
  The default trigger URL is only named, and \<^verbatim>\<open>get\<close> belongs to a library: both stay
  parameters.
\<close>

fun after_open :: "string \<Rightarrow> string option" where
  "after_open (a # b # cs) =
     (if a = CHR ''{'' \<and> b = CHR ''{'' then Some cs else after_open (b # cs))"
| "after_open cs = None"

fun before_close :: "string \<Rightarrow> string \<Rightarrow> string option" where
  "before_close acc (a # b # cs) =
     (if a = CHR ''}'' \<and> b = CHR ''}'' then Some (rev acc) else before_close (a # acc) (b # cs))"
| "before_close acc cs = None"

definition first_binding :: "string \<Rightarrow> string option" where
  "first_binding cs = do { rest \<leftarrow> after_open cs; before_close [] rest }"

definition spec_getDynamicBindings :: "jsval \<Rightarrow> jsval option" where
  "spec_getDynamicBindings v =
     Some (JObj [(''jsSnippets'',
       JArr (case v of
               JStr cs \<Rightarrow> (case first_binding cs of None \<Rightarrow> [] | Some e \<Rightarrow> [JStr e])
             | _ \<Rightarrow> []))])"

definition action_prefix :: string where
  "action_prefix = ''actionConfiguration.''"

definition spec_getDataTreeActionConfigPath :: "jsval \<Rightarrow> jsval option" where
  "spec_getDataTreeActionConfigPath v =
     Some (case v of
             JStr cs \<Rightarrow>
               (if take (length action_prefix) cs = action_prefix
                then JStr (drop (length action_prefix) cs) else JStr cs)
           | _ \<Rightarrow> v)"

definition spec_isDynamicValue :: "jsval \<Rightarrow> jsval option" where
  "spec_isDynamicValue v =
     Some (JBool (case v of JStr cs \<Rightarrow> first_binding cs \<noteq> None | _ \<Rightarrow> False))"

definition spec_helpers ::
  "(string \<Rightarrow> jsval) \<Rightarrow> (store \<Rightarrow> jsval \<Rightarrow> jsval \<Rightarrow> jsval) \<Rightarrow> helpers" where
  "spec_helpers url g =
     \<lparr>defaultDynamicTriggerURL = url,
      getDynamicBindings = spec_getDynamicBindings,
      getDataTreeActionConfigPath = spec_getDataTreeActionConfigPath,
      isDynamicValue = spec_isDynamicValue,
      get = g\<rparr>"

text \<open>
  Modelled from the spec: \<^verbatim>\<open>get\<close> is imported from lodash, which is not among the files
  of the repository. The description calls it a lookup by dotted path that yields
  undefined when nothing is found: the path is split at its dots and followed from the
  object, as long as the value reached is not null or undefined. It stands in for
  \<^verbatim>\<open>get\<close> in the examples only, on paths of plain names through nested objects.
\<close>

fun split_dots :: "string \<Rightarrow> string \<Rightarrow> string list" where
  "split_dots acc [] = [rev acc]"
| "split_dots acc (c # cs) =
     (if c = CHR ''.'' then rev acc # split_dots [] cs else split_dots (c # acc) cs)"

fun walk :: "store \<Rightarrow> jsval \<Rightarrow> string list \<Rightarrow> jsval" where
  "walk s v [] = v"
| "walk s v (k # ks) = (case js_get s v k of None \<Rightarrow> JUndefined | Some w \<Rightarrow> walk s w ks)"

definition dotted_get :: "store \<Rightarrow> jsval \<Rightarrow> jsval \<Rightarrow> jsval" where
  "dotted_get s obj path = walk s obj (split_dots [] (to_key path))"

section \<open>Notions used in the properties\<close>

text \<open>
  A task is in its evaluation phase from the select of line 75 to the end of the put
  of line 85: these are the program points between \<^verbatim>\<open>setIsEvaluating(true)\<close> and
  \<^verbatim>\<open>setIsEvaluating(false)\<close>.
\<close>

fun eval_phase :: "pc \<Rightarrow> bool" where
  "eval_phase (AtSelect a) = True"
| "eval_phase (AtEval a) = True"
| "eval_phase (AtPut a w) = True"
| "eval_phase p = False"

text \<open>Concrete data for the examples.\<close>

definition demo_action :: "string \<Rightarrow> ReduxAction" where
  "demo_action f =
     \<lparr>actionType = ''RUN_FORM_EVALUATION'',
      payload = \<lparr>formId = f, datasourceId = Some ''d'', pluginId = None,
        actionConfiguration = None, editorConfig = None, settingConfig = None,
        actionDiffPath = None, hasRouteChanged = None\<rparr>\<rparr>"

definition demo_helpers :: helpers where
  "demo_helpers = spec_helpers (\<lambda>d. JStr (''/trigger/'' @ d)) dotted_get"

definition empty_store :: store where
  "empty_store = \<lparr>objs = (\<lambda>a. []), nxt = 0\<rparr>"

text \<open>
  Two states with the same module state and tasks, the trace of the second extending
  the trace of the first.
\<close>

definition same_control :: "sys \<Rightarrow> sys \<Rightarrow> bool" where
  "same_control \<sigma> \<sigma>' \<longleftrightarrow>
     isEvaluating \<sigma>' = isEvaluating \<sigma> \<and> evalQueue \<sigma>' = evalQueue \<sigma> \<and> tasks \<sigma>' = tasks \<sigma>
     \<and> (\<exists>es. trace \<sigma>' = trace \<sigma> @ es)"

text \<open>The tasks in their evaluation phase.\<close>

definition evaluating :: "sys \<Rightarrow> (ReduxAction \<times> pc) list" where
  "evaluating \<sigma> = filter (\<lambda>t. eval_phase (snd t)) (tasks \<sigma>)"

text \<open>
  The requests whose evaluation has begun, in the order in which they began: every task
  but those that only enqueued their request.
\<close>

definition started :: "sys \<Rightarrow> ReduxAction list" where
  "started \<sigma> = map fst (filter (\<lambda>t. snd t \<noteq> Enqueued) (tasks \<sigma>))"

text \<open>The requests submitted by a sequence of inputs, in order.\<close>

fun submitted :: "input list \<Rightarrow> ReduxAction list" where
  "submitted [] = []"
| "submitted (Submit a # ins) = a # submitted ins"
| "submitted (Resume n r # ins) = submitted ins"

text \<open>No task has ended in the catch block of lines 125 to 128.\<close>

definition uncaught :: "sys \<Rightarrow> bool" where
  "uncaught \<sigma> \<longleftrightarrow> Caught \<notin> snd ` set (tasks \<sigma>)"

text \<open>
  The busy flag is set exactly when one task is in its evaluation phase, and there is
  never more than one; when the flag is clear the queue is empty.
\<close>

definition serial :: "sys \<Rightarrow> bool" where
  "serial \<sigma> \<longleftrightarrow>
     length (evaluating \<sigma>) = (if isEvaluating \<sigma> then 1 else 0)
     \<and> (\<not> isEvaluating \<sigma> \<longrightarrow> evalQueue \<sigma> = [])"

text \<open>
  A store with one field \<open>A\<close> that is allowed to fetch, the evaluation output that
  holds it, and the worker response for form \<open>f\<close>.
\<close>

definition demo_config :: jsval where
  "demo_config = JObj [(''params'', JObj [(''parameters'',
      JObj [(''sheetUrl'', JStr ''{{actionConfiguration.formData.sheetUrl.data}}'')])])]"

definition demo_evaluatedConfig :: jsval where
  "demo_evaluatedConfig = JObj [(''params'', JObj [(''requestType'', JStr ''SHEETS''),
      (''parameters'', JObj [(''sheetUrl'', JStr ''u'')])])]"

definition demo_store :: store where
  "demo_store =
     \<lparr>objs = (\<lambda>a. [])
        (0 := [(''fetchDynamicValues'', JRef 1)],
         1 := [(''allowedToFetch'', JBool True), (''isLoading'', JBool True),
               (''config'', demo_config), (''evaluatedConfig'', demo_evaluatedConfig)]),
      nxt = 2\<rparr>"

definition demo_evalOutput :: jsval where
  "demo_evalOutput = JObj [(''A'', JRef 0)]"

definition demo_response :: jsval where
  "demo_response = JObj [(''f'', demo_evalOutput)]"

text \<open>An evaluation output in which no field is allowed to fetch.\<close>

definition plain_evalOutput :: jsval where
  "plain_evalOutput = JObj [(''A'', JObj [(''visible'', JBool True)])]"

definition plain_response :: jsval where
  "plain_response = JObj [(''f'', plain_evalOutput)]"

text \<open>The suspended call works on the object \<open>d\<close>.\<close>

fun fo_owner :: "nat \<Rightarrow> fo_pc \<Rightarrow> bool" where
  "fo_owner d (FoSelectAction L) = (fo_dyn L = d)"
| "fo_owner d (FoSelectTree L) = (fo_dyn L = d)"
| "fo_owner d (FoCallApi L) = (fo_dyn L = d)"
| "fo_owner d FoReturn = True"

text \<open>The state the catch block and the failure branch leave the object in.\<close>

definition failed_state :: "store \<Rightarrow> nat \<Rightarrow> bool" where
  "failed_state s d \<longleftrightarrow>
     field s d ''hasFetchFailed'' = JBool True \<and> field s d ''isLoading'' = JBool False
     \<and> field s d ''data'' = JArr []"

text \<open>A call that has returned through its catch block, having logged \<open>e\<close>.\<close>

definition caught_with :: "error \<Rightarrow> nat \<Rightarrow> sys \<Rightarrow> sys \<times> fo_pc \<Rightarrow> bool" where
  "caught_with e d \<sigma> R \<longleftrightarrow>
     snd R = FoReturn \<and> failed_state (heap (fst R)) d \<and> trace (fst R) = trace \<sigma> @ [LogError e]"

text \<open>The selected action, the data tree and an API response for the examples.\<close>

definition demo_entity :: jsval where
  "demo_entity = JObj [(''name'', JStr ''Api1'')]"

definition demo_tree :: jsval where
  "demo_tree = JObj [(''Api1'', JObj [(''__evaluation__'', JObj [(''evaluatedValues'',
      JObj [(''formData'', JObj [(''sheetUrl'', JObj [(''data'', JStr ''http://x'')])])])])])]"

definition demo_api_response :: jsval where
  "demo_api_response = JObj [(''responseMeta'', JObj [(''status'', JNum 200)]),
      (''data'', JObj [(''trigger'', JArr [JNum 1, JNum 2])])]"




text \<open>The yields a suspended call can still reach.\<close>

fun fo_left :: "fo_pc \<Rightarrow> nat" where
  "fo_left (FoSelectAction L) = 3"
| "fo_left (FoSelectTree L) = 2"
| "fo_left (FoCallApi L) = 1"
| "fo_left FoReturn = 0"


text \<open>A field without \<^verbatim>\<open>fetchDynamicValues\<close>, and an object to fetch into.\<close>

definition bare_store :: store where
  "bare_store = \<lparr>objs = (\<lambda>a. [])(0 := [(''visible'', JBool True)],
                    1 := [(''hasStarted'', JBool False), (''isLoading'', JBool True)]), nxt = 2\<rparr>"






text \<open>The object handed to a call of \<^verbatim>\<open>fetchDynamicValueSaga\<close>.\<close>

fun call_ref :: "event \<Rightarrow> jsval option" where
  "call_ref (CallFetchDynamicValueSaga v d f ds pl k) = Some d"
| "call_ref e = None"

text \<open>Every call in the events was handed a reference to an address from \<open>lo\<close> up to \<open>hi\<close>.\<close>

definition fresh_calls :: "nat \<Rightarrow> nat \<Rightarrow> event list \<Rightarrow> bool" where
  "fresh_calls lo hi es \<longleftrightarrow> (\<forall>e \<in> set es. \<forall>d. call_ref e = Some d \<longrightarrow> (\<exists>n. lo \<le> n \<and> n < hi \<and> d = JRef n))"

text \<open>
  What the loop may have done to a store \<open>h0\<close> whose next free address was \<open>n0\<close>, for an
  evaluation output with the entries \<open>eo\<close>: the objects below \<open>n0\<close> that are not entries
  are as they were, and the others differ at most in \<^verbatim>\<open>fetchDynamicValues\<close>, which then
  refers to an address from \<open>n0\<close> on.
\<close>

definition framed :: "nat \<Rightarrow> store \<Rightarrow> props \<Rightarrow> store \<Rightarrow> bool" where
  "framed n0 h0 eo h \<longleftrightarrow>
     n0 \<le> nxt h
     \<and> (\<forall>a < n0. JRef a \<notin> snd ` set eo \<longrightarrow> objs h a = objs h0 a)
     \<and> (\<forall>c < n0. \<forall>f. f \<noteq> ''fetchDynamicValues'' \<longrightarrow> field h c f = field h0 c f)
     \<and> (\<forall>c < n0. field h c ''fetchDynamicValues'' = field h0 c ''fetchDynamicValues''
           \<or> (\<exists>d. n0 \<le> d \<and> field h c ''fetchDynamicValues'' = JRef d))"

text \<open>The invariant of the loop for the store and the trace.\<close>

definition fa_frame_inv :: "event list \<Rightarrow> nat \<Rightarrow> store \<Rightarrow> props \<Rightarrow> sys \<Rightarrow> bool" where
  "fa_frame_inv tr0 n0 h0 eo \<sigma> \<longleftrightarrow>
     framed n0 h0 eo (heap \<sigma>)
     \<and> (\<exists>es. trace \<sigma> = tr0 @ es \<and> fresh_calls n0 (nxt (heap \<sigma>)) es)"

text \<open>The invariant of a suspended call of line 141.\<close>

fun fa_pc_inv :: "nat \<Rightarrow> props \<Rightarrow> sys \<Rightarrow> fa_pc \<Rightarrow> bool" where
  "fa_pc_inv n0 eo \<sigma> (FaFetching F ks target dyn q) \<longleftrightarrow>
     fa_evalOutput F = JObj eo \<and> n0 \<le> dyn \<and> dyn < nxt (heap \<sigma>) \<and> fo_owner dyn q
     \<and> (\<forall>c. target = JRef c \<longrightarrow> JRef c \<in> snd ` set eo)"
| "fa_pc_inv n0 eo \<sigma> p \<longleftrightarrow> True"

text \<open>The calls of \<^verbatim>\<open>fetchDynamicValueSaga\<close> in a trace: the key and the object handed.\<close>

fun fetch_calls :: "event list \<Rightarrow> (string \<times> jsval) list" where
  "fetch_calls [] = []"
| "fetch_calls (CallFetchDynamicValueSaga v d f ds pl k # es) = (k, d) # fetch_calls es"
| "fetch_calls (e # es) = fetch_calls es"

text \<open>The event is a put.\<close>

fun is_put :: "event \<Rightarrow> bool" where
  "is_put (Put t x) = True"
| "is_put e = False"

text \<open>The calls for the keys \<open>ks\<close>, when the first is handed the address \<open>n0\<close>.\<close>

definition handed :: "nat \<Rightarrow> string list \<Rightarrow> (string \<times> jsval) list" where
  "handed n0 ks = map (\<lambda>(a, k). (k, JRef a)) (enumerate n0 ks)"

text \<open>
  Each key of \<open>ks\<close> whose entry in the evaluation output is a store object has there, as
  \<^verbatim>\<open>fetchDynamicValues\<close>, the object its call was handed.
\<close>

definition assigned :: "props \<Rightarrow> nat \<Rightarrow> string list \<Rightarrow> store \<Rightarrow> bool" where
  "assigned eo n0 ks h \<longleftrightarrow>
     (\<forall>(a, k) \<in> set (enumerate n0 ks). \<forall>c. lookup eo k = JRef c \<longrightarrow>
        field h c ''fetchDynamicValues'' = JRef a)"

text \<open>
  What the loop is given: the evaluation output is a literal mapping, the pending
  mapping is not null or undefined, and the entries of the evaluation output for the
  keys are distinct objects that exist in the store.
\<close>

definition fa_pre :: "nat \<Rightarrow> props \<Rightarrow> string list \<Rightarrow> fa_frame \<Rightarrow> bool" where
  "fa_pre n0 eo K F \<longleftrightarrow>
     fa_evalOutput F = JObj eo \<and> \<not> nullish (fa_queue F)
     \<and> (\<forall>k \<in> set K. \<exists>c < n0. lookup eo k = JRef c)
     \<and> distinct (map (lookup eo) K)"

text \<open>The invariant at the head of the loop, the keys \<open>seen\<close> being done.\<close>

definition fa_head :: "event list \<Rightarrow> nat \<Rightarrow> props \<Rightarrow> string list \<Rightarrow> sys \<Rightarrow> bool" where
  "fa_head tr0 n0 eo seen \<sigma> \<longleftrightarrow>
     (\<exists>es. trace \<sigma> = tr0 @ es \<and> fetch_calls es = handed n0 seen \<and> filter is_put es = [])
     \<and> nxt (heap \<sigma>) = n0 + length seen
     \<and> assigned eo n0 seen (heap \<sigma>)"

text \<open>The state after the put of line 152.\<close>

definition fa_finished ::
  "event list \<Rightarrow> nat \<Rightarrow> props \<Rightarrow> string list \<Rightarrow> fa_frame \<Rightarrow> sys \<Rightarrow> bool" where
  "fa_finished tr0 n0 eo K F \<sigma> \<longleftrightarrow>
     (\<exists>es. trace \<sigma> = tr0 @ es @ [Put ''SET_FORM_EVALUATION'' (JObj [(fa_formId F, fa_evalOutput F)])]
           \<and> fetch_calls es = handed n0 K \<and> filter is_put es = [])
     \<and> assigned eo n0 K (heap \<sigma>)"

text \<open>The invariant at each program point.\<close>

fun fa_inv ::
  "event list \<Rightarrow> nat \<Rightarrow> props \<Rightarrow> string list \<Rightarrow> fa_frame \<Rightarrow> sys \<Rightarrow> fa_pc \<Rightarrow> bool" where
  "fa_inv tr0 n0 eo K F \<sigma> (FaFetching F' ks target dyn q) \<longleftrightarrow>
     F' = F \<and> (\<exists>seen key c. K = seen @ key # ks \<and> target = JRef c \<and> lookup eo key = JRef c
        \<and> dyn = n0 + length seen \<and> fo_owner dyn q
        \<and> (\<exists>es. trace \<sigma> = tr0 @ es \<and> fetch_calls es = handed n0 (seen @ [key])
              \<and> filter is_put es = [])
        \<and> nxt (heap \<sigma>) = Suc (n0 + length seen)
        \<and> assigned eo n0 seen (heap \<sigma>))"
| "fa_inv tr0 n0 eo K F \<sigma> (FaPut F') \<longleftrightarrow> F' = F \<and> fa_finished tr0 n0 eo K F \<sigma>"
| "fa_inv tr0 n0 eo K F \<sigma> FaReturn \<longleftrightarrow> fa_finished tr0 n0 eo K F \<sigma>"
| "fa_inv tr0 n0 eo K F \<sigma> (FaThrown e) \<longleftrightarrow> (\<exists>x. e = Thrown x) \<and> fa_finished tr0 n0 eo K F \<sigma>"

text \<open>The event is neither a call of \<^verbatim>\<open>fetchDynamicValueSaga\<close> nor a put.\<close>

fun quiet :: "event \<Rightarrow> bool" where
  "quiet (CallFetchDynamicValueSaga v d f ds pl k) = False"
| "quiet (Put t x) = False"
| "quiet e = True"

text \<open>The yields the saga can still reach, and a suspended call that has not returned.\<close>

fun fa_left :: "fa_pc \<Rightarrow> nat" where
  "fa_left (FaFetching F ks target dyn q) = fo_left q + 3 * length ks + 1"
| "fa_left (FaPut F) = 1"
| "fa_left p = 0"

fun fa_live :: "fa_pc \<Rightarrow> bool" where
  "fa_live (FaFetching F ks target dyn q) = (q \<noteq> FoReturn)"
| "fa_live p = True"

text \<open>Two fields that are allowed to fetch, and responses where the second fetch throws.\<close>

definition two_store :: store where
  "two_store =
     \<lparr>objs = (\<lambda>a. [])
        (0 := [(''fetchDynamicValues'', JRef 1)],
         1 := [(''allowedToFetch'', JBool True), (''isLoading'', JBool True),
               (''config'', demo_config), (''evaluatedConfig'', demo_evaluatedConfig)],
         2 := [(''fetchDynamicValues'', JRef 3)],
         3 := [(''allowedToFetch'', JBool True), (''isLoading'', JBool True),
               (''config'', demo_config), (''evaluatedConfig'', demo_evaluatedConfig)]),
      nxt = 4\<rparr>"

definition two_evalOutput :: jsval where
  "two_evalOutput = JObj [(''A'', JRef 0), (''B'', JRef 2)]"

definition two_responses :: "resp list" where
  "two_responses = [Ret demo_entity, Ret demo_tree, Ret demo_api_response,
                    Ret demo_entity, Ret demo_tree, Thr (JStr ''boom''), Ret JUndefined]"

section \<open>Properties of setFormEvaluationSagaAsync\<close>

text \<open>
  C8. An exception thrown into the task at the state read, at the evaluation call or
  at the publish is logged, the busy flag is reset, and nothing else changes: the queue
  keeps its requests, no task is forked, and the task is over (resuming it does
  nothing).
\<close>

theorem evaluation_error_leaves_queue:
  assumes "eval_phase p"
  shows "resume hp p (Thr x) \<sigma> =
           (\<sigma>\<lparr>trace := trace \<sigma> @ [LogError (Thrown x)], isEvaluating := False\<rparr>, Caught)
         \<and> resume hp Caught r (fst (resume hp p (Thr x) \<sigma>)) =
           (fst (resume hp p (Thr x) \<sigma>), Caught)"
  using assms by (cases p) (simp_all add: seq_catch_def emit_def setIsEvaluating_def)

theorem evaluation_error_leaves_queue_witness:
  "eval_phase (AtEval (demo_action ''f'')) \<and>
   resume demo_helpers (AtEval (demo_action ''f'')) (Thr (JStr ''boom''))
     ((idle empty_store)\<lparr>isEvaluating := True, evalQueue := [demo_action ''g'']\<rparr>)
   = ((idle empty_store)\<lparr>isEvaluating := False, evalQueue := [demo_action ''g''],
        trace := [LogError (Thrown (JStr ''boom''))]\<rparr>, Caught)"
  using evaluation_error_leaves_queue [of "AtEval (demo_action ''f'')" demo_helpers
     "JStr ''boom''" "(idle empty_store)\<lparr>isEvaluating := True, evalQueue := [demo_action ''g'']\<rparr>"]
  by (simp add: idle_def)

text \<open>
  C2. A request submitted while the busy flag is set is appended to the end of the
  queue; nothing is yielded, the flag and the store stay as they are, and the task
  does nothing when it is resumed. A request submitted while the flag is clear sets the
  flag and starts the cycle: it selects the evaluation state and, given it, calls the
  evaluation function with the request.
\<close>

theorem submit_enqueues_or_starts:
  "(isEvaluating \<sigma> \<longrightarrow>
      step hp (Submit action) \<sigma> =
        \<sigma>\<lparr>evalQueue := evalQueue \<sigma> @ [action], tasks := tasks \<sigma> @ [(action, Enqueued)]\<rparr>
      \<and> (\<forall>r. step hp (Resume (length (tasks \<sigma>)) r) (step hp (Submit action) \<sigma>) =
               step hp (Submit action) \<sigma>))
   \<and> (\<not> isEvaluating \<sigma> \<longrightarrow>
      step hp (Submit action) \<sigma> =
        \<sigma>\<lparr>isEvaluating := True, trace := trace \<sigma> @ [Select ''getFormEvaluationState'' []],
          tasks := tasks \<sigma> @ [(action, AtSelect action)]\<rparr>
      \<and> (\<forall>cur. step hp (Resume (length (tasks \<sigma>)) (Ret cur)) (step hp (Submit action) \<sigma>) =
        \<sigma>\<lparr>isEvaluating := True,
          trace := trace \<sigma> @ [Select ''getFormEvaluationState'' [], CallEvalFormConfig action cur],
          tasks := tasks \<sigma> @ [(action, AtEval action)]\<rparr>))"
  by (simp add: fork_task_def setFormEvaluationSagaAsync_def emit_def setIsEvaluating_def)

theorem submit_enqueues_or_starts_witness:
  "isEvaluating ((idle empty_store)\<lparr>isEvaluating := True\<rparr>)
   \<and> step demo_helpers (Submit (demo_action ''g'')) ((idle empty_store)\<lparr>isEvaluating := True\<rparr>) =
       (idle empty_store)\<lparr>isEvaluating := True, evalQueue := [demo_action ''g''],
          tasks := [(demo_action ''g'', Enqueued)]\<rparr>
   \<and> \<not> isEvaluating (idle empty_store)
   \<and> step demo_helpers (Submit (demo_action ''f'')) (idle empty_store) =
       (idle empty_store)\<lparr>isEvaluating := True, trace := [Select ''getFormEvaluationState'' []],
          tasks := [(demo_action ''f'', AtSelect (demo_action ''f''))]\<rparr>"
  using submit_enqueues_or_starts [of "(idle empty_store)\<lparr>isEvaluating := True\<rparr>" demo_helpers
          "demo_action ''g''"]
        submit_enqueues_or_starts [of "idle empty_store" demo_helpers "demo_action ''f''"]
  by (simp add: idle_def)

section \<open>Serialization of the evaluations\<close>

lemma same_control_refl [simp]: "same_control \<sigma> \<sigma>"
  by (simp add: same_control_def)

lemma same_control_trans: "same_control a b \<Longrightarrow> same_control b c \<Longrightarrow> same_control a c"
  by (auto simp: same_control_def)

lemma same_control_heap [simp]: "same_control \<sigma> (\<sigma>\<lparr>heap := h\<rparr>)"
  by (simp add: same_control_def)

lemma same_control_emit [simp]: "same_control \<sigma> (emit e \<sigma>)"
  by (simp add: same_control_def emit_def)

lemma fo_catch_control: "same_control \<sigma> (fst (fo_catch e d \<sigma>))"
  by (simp add: same_control_def fo_catch_def put_field_def emit_def)

lemma fo_start_control: "same_control \<sigma> (fst (fo_start hp v d a ds pl cp \<sigma>))"
  by (simp add: same_control_def fo_start_def fo_catch_def put_field_def emit_def Let_def
        split: option.splits)

lemma fo_resume_control: "same_control \<sigma> (fst (fo_resume hp p r \<sigma>))"
proof (cases p)
  case (FoSelectAction L)
  then show ?thesis
    by (cases r) (simp_all add: same_control_def fo_catch_def put_field_def emit_def)
next
  case (FoSelectTree L)
  then show ?thesis
    by (cases r)
       (simp_all add: same_control_def fo_catch_def put_field_def emit_def split: option.splits)
next
  case (FoCallApi L)
  then show ?thesis
    by (cases r)
       (simp_all add: same_control_def fo_catch_def put_field_def emit_def Let_def
          split: option.splits)
next
  case FoReturn
  then show ?thesis by simp
qed

lemma fa_loop_control: "same_control \<sigma> (fst (fa_loop hp F ks \<sigma>))"
proof (induction ks arbitrary: \<sigma>)
  case Nil
  then show ?case by simp
next
  case (Cons key ks)
  show ?case
  proof (cases "fa_operands (heap \<sigma>) F key")
    case None then show ?thesis by simp
  next
    case (Some t)
    obtain target v fdv where t: "t = (target, v, fdv)" by (cases t) auto
    obtain h dyn where oa: "object_assign_new (heap \<sigma>) fdv = (h, dyn)" by force
    let ?\<sigma>0 = "emit (CallFetchDynamicValueSaga v (JRef dyn) (fa_formId F)
                           (fa_datasourceId F) (fa_pluginId F) key) (\<sigma>\<lparr>heap := h\<rparr>)"
    obtain \<sigma>1 p where fs: "fo_start hp v dyn (fa_formId F) (fa_datasourceId F) (fa_pluginId F) key ?\<sigma>0 = (\<sigma>1, p)"
      by force
    have c0: "same_control \<sigma> ?\<sigma>0"
      by (rule same_control_trans [OF same_control_heap same_control_emit])
    have c1: "same_control \<sigma> \<sigma>1"
      using same_control_trans [OF c0 fo_start_control [of ?\<sigma>0 hp v dyn "fa_formId F" "fa_datasourceId F" "fa_pluginId F" key]] fs
      by simp
    show ?thesis
    proof (cases "p = FoReturn")
      case False
      then show ?thesis using Some t oa fs c1 by simp
    next
      case True
      show ?thesis
      proof (cases "js_assign (heap \<sigma>1) target ''fetchDynamicValues'' (JRef dyn)")
        case None
        then show ?thesis using Some t oa fs c1 True by simp
      next
        case (Some h1)
        have "same_control \<sigma> (fst (fa_loop hp F ks (\<sigma>1\<lparr>heap := h1\<rparr>)))"
          by (rule same_control_trans [OF c1 same_control_trans [OF same_control_heap Cons.IH]])
        then show ?thesis using \<open>fa_operands (heap \<sigma>) F key = Some t\<close> t oa fs True Some by simp
      qed
    qed
  qed
qed

lemma fa_start_control: "same_control \<sigma> (fst (fa_start hp F \<sigma>))"
  by (simp add: fa_start_def fa_loop_control split: option.splits)

lemma fa_resume_control: "same_control \<sigma> (fst (fa_resume hp p r \<sigma>))"
proof (cases p)
  case (FaFetching F ks target dyn q)
  obtain \<sigma>1 p1 where fr: "fo_resume hp q r \<sigma> = (\<sigma>1, p1)" by force
  have c1: "same_control \<sigma> \<sigma>1" using fo_resume_control [of \<sigma> hp q r] fr by simp
  show ?thesis
  proof (cases "p1 = FoReturn")
    case False
    then show ?thesis using FaFetching fr c1 by simp
  next
    case True
    show ?thesis
    proof (cases "js_assign (heap \<sigma>1) target ''fetchDynamicValues'' (JRef dyn)")
      case None
      then show ?thesis using FaFetching fr c1 True by simp
    next
      case (Some h1)
      have "same_control \<sigma> (fst (fa_loop hp F ks (\<sigma>1\<lparr>heap := h1\<rparr>)))"
        by (rule same_control_trans [OF c1 same_control_trans [OF same_control_heap fa_loop_control]])
      then show ?thesis using FaFetching fr True Some by simp
    qed
  qed
next
  case (FaPut F)
  then show ?thesis by (cases r) simp_all
next
  case FaReturn
  then show ?thesis by simp
next
  case (FaThrown e)
  then show ?thesis by simp
qed

lemma seq_fetch_control:
  assumes "same_control \<sigma> \<sigma>1" and "seq_fetch a (\<sigma>1, fp) = (\<sigma>2, p2)"
  shows "p2 = Caught \<or> (same_control \<sigma> \<sigma>2 \<and> \<not> eval_phase p2 \<and> p2 \<noteq> Enqueued)"
  using assms by (cases fp) (auto simp: seq_catch_def)

text \<open>What a resumed task does to the control state.\<close>

lemma resume_control:
  assumes "resume hp p r \<sigma> = (\<sigma>', p')"
  shows "p' = Caught
    \<or> (same_control \<sigma> \<sigma>' \<and> eval_phase p' = eval_phase p \<and> (p' = Enqueued) = (p = Enqueued))
    \<or> (eval_phase p \<and> \<not> eval_phase p' \<and> p' \<noteq> Enqueued \<and>
         ((evalQueue \<sigma> = [] \<and> \<not> isEvaluating \<sigma>' \<and> evalQueue \<sigma>' = [] \<and> tasks \<sigma>' = tasks \<sigma>)
          \<or> (\<exists>n rest. evalQueue \<sigma> = n # rest \<and> evalQueue \<sigma>' = rest \<and> isEvaluating \<sigma>'
                \<and> tasks \<sigma>' = tasks \<sigma> @ [(n, AtSelect n)])))"
proof -
  have ap: "\<And>a w. after_publish a w \<sigma> = (\<sigma>', p') \<Longrightarrow>
      p' = Caught \<or> (\<not> eval_phase p' \<and> p' \<noteq> Enqueued \<and>
         ((evalQueue \<sigma> = [] \<and> \<not> isEvaluating \<sigma>' \<and> evalQueue \<sigma>' = [] \<and> tasks \<sigma>' = tasks \<sigma>)
          \<or> (\<exists>n rest. evalQueue \<sigma> = n # rest \<and> evalQueue \<sigma>' = rest \<and> isEvaluating \<sigma>'
                \<and> tasks \<sigma>' = tasks \<sigma> @ [(n, AtSelect n)])))"
    by (auto simp: after_publish_def Let_def setIsEvaluating_def seq_catch_def emit_def
          fork_task_def setFormEvaluationSagaAsync_def
          split: list.splits option.splits if_splits)
  show ?thesis
  proof (cases p)
    case (AtSelect a)
    then show ?thesis using assms by (cases r) (auto simp: seq_catch_def)
  next
    case (AtEval a)
    then show ?thesis using assms ap by (cases r) (auto simp: seq_catch_def split: if_splits)
  next
    case (AtPut a w)
    then show ?thesis using assms ap by (cases r) (auto simp: seq_catch_def)
  next
    case (AtRace a eo q)
    then show ?thesis using assms by (cases r) (auto simp: seq_catch_def)
  next
    case (AtDelay a eo q)
    show ?thesis
    proof (cases r)
      case (Thr x)
      then show ?thesis using assms AtDelay by (simp add: seq_catch_def)
    next
      case (Ret x)
      let ?F = "\<lparr>fa_queue = q, fa_formId = formId (payload a), fa_evalOutput = eo,
                fa_datasourceId = string_or_empty (datasourceId (payload a)),
                fa_pluginId = string_or_empty (pluginId (payload a))\<rparr>"
      let ?\<sigma>0 = "emit (CallFetchDynamicValuesSaga q (fa_formId ?F) eo
                       (fa_datasourceId ?F) (fa_pluginId ?F)) \<sigma>"
      obtain \<sigma>1 fp where fs: "fa_start hp ?F ?\<sigma>0 = (\<sigma>1, fp)" by force
      have "same_control \<sigma> \<sigma>1"
        using same_control_trans [OF same_control_emit fa_start_control [of ?\<sigma>0 hp ?F]] fs by simp
      moreover have "seq_fetch a (\<sigma>1, fp) = (\<sigma>', p')"
        using assms AtDelay Ret fs by (simp add: Let_def)
      ultimately show ?thesis using seq_fetch_control AtDelay by fastforce
    qed
  next
    case (AtFetch a fp)
    obtain \<sigma>1 fp1 where fr: "fa_resume hp fp r \<sigma> = (\<sigma>1, fp1)" by force
    have "same_control \<sigma> \<sigma>1" using fa_resume_control [of \<sigma> hp fp r] fr by simp
    moreover have "seq_fetch a (\<sigma>1, fp1) = (\<sigma>', p')" using assms AtFetch fr by simp
    ultimately show ?thesis using seq_fetch_control AtFetch by fastforce
  next
    case Enqueued
    then show ?thesis using assms by auto
  next
    case Finished
    then show ?thesis using assms by auto
  next
    case Caught
    then show ?thesis using assms by auto
  qed
qed

lemma seq_fetch_tasks: "same_control \<sigma> \<sigma>1 \<Longrightarrow> tasks (fst (seq_fetch a (\<sigma>1, fp))) = tasks \<sigma>"
  by (cases fp) (auto simp: seq_catch_def same_control_def setIsEvaluating_def emit_def)

lemma resume_tasks: "\<exists>new. tasks (fst (resume hp p r \<sigma>)) = tasks \<sigma> @ new"
proof -
  have ap: "\<And>a w. \<exists>new. tasks (fst (after_publish a w \<sigma>)) = tasks \<sigma> @ new"
    by (auto simp: after_publish_def Let_def setIsEvaluating_def seq_catch_def emit_def
          fork_task_def setFormEvaluationSagaAsync_def
          split: list.splits option.splits if_splits)
  show ?thesis
  proof (cases p)
    case (AtSelect a)
    then show ?thesis by (cases r) (auto simp: seq_catch_def setIsEvaluating_def emit_def)
  next
    case (AtEval a)
    then show ?thesis using ap
      by (cases r) (auto simp: seq_catch_def setIsEvaluating_def emit_def)
  next
    case (AtPut a w)
    then show ?thesis using ap
      by (cases r) (auto simp: seq_catch_def setIsEvaluating_def emit_def)
  next
    case (AtRace a eo q)
    then show ?thesis by (cases r) (auto simp: seq_catch_def setIsEvaluating_def emit_def)
  next
    case (AtDelay a eo q)
    show ?thesis
    proof (cases r)
      case (Thr x)
      then show ?thesis using AtDelay by (simp add: seq_catch_def setIsEvaluating_def emit_def)
    next
      case (Ret x)
      let ?F = "\<lparr>fa_queue = q, fa_formId = formId (payload a), fa_evalOutput = eo,
                fa_datasourceId = string_or_empty (datasourceId (payload a)),
                fa_pluginId = string_or_empty (pluginId (payload a))\<rparr>"
      let ?\<sigma>0 = "emit (CallFetchDynamicValuesSaga q (fa_formId ?F) eo
                       (fa_datasourceId ?F) (fa_pluginId ?F)) \<sigma>"
      have "same_control \<sigma> (fst (fa_start hp ?F ?\<sigma>0))"
        by (rule same_control_trans [OF same_control_emit fa_start_control])
      from seq_fetch_tasks [OF this, of a "snd (fa_start hp ?F ?\<sigma>0)"]
      show ?thesis using AtDelay Ret by (simp add: Let_def)
    qed
  next
    case (AtFetch a fp)
    from seq_fetch_tasks [OF fa_resume_control, of a hp fp r \<sigma> "snd (fa_resume hp fp r \<sigma>)"]
    show ?thesis using AtFetch by simp
  next
    case Enqueued
    then show ?thesis by simp
  next
    case Finished
    then show ?thesis by simp
  next
    case Caught
    then show ?thesis by simp
  qed
qed

lemma filter_update_length:
  "n < length xs \<Longrightarrow>
   length (filter P (xs[n := y])) + (if P (xs ! n) then 1 else 0)
     = length (filter P xs) + (if P y then 1 else 0)"
proof (induction xs arbitrary: n)
  case Nil
  then show ?case by simp
next
  case (Cons x xs)
  then show ?case by (cases n) auto
qed

lemma map_filter_update:
  "n < length xs \<Longrightarrow> fst y = fst (xs ! n) \<Longrightarrow> Q y = Q (xs ! n) \<Longrightarrow>
   map fst (filter Q (xs[n := y])) = map fst (filter Q xs)"
proof (induction xs arbitrary: n)
  case Nil
  then show ?case by simp
next
  case (Cons x xs)
  then show ?case by (cases n) auto
qed

lemma uncaught_step:
  assumes "uncaught (step hp i \<sigma>)"
  shows "uncaught \<sigma>"
proof (cases i)
  case (Submit a)
  then show ?thesis using assms
    by (auto simp: uncaught_def fork_task_def setFormEvaluationSagaAsync_def emit_def
          setIsEvaluating_def split: if_splits)
next
  case (Resume n r)
  show ?thesis
  proof (cases "n < length (tasks \<sigma>)")
    case False
    then show ?thesis using assms Resume by simp
  next
    case True
    obtain a p where t: "tasks \<sigma> ! n = (a, p)" by force
    obtain \<sigma>1 p1 where rs: "resume hp p r \<sigma> = (\<sigma>1, p1)" by force
    obtain new where nw: "tasks \<sigma>1 = tasks \<sigma> @ new"
      using resume_tasks [of hp p r \<sigma>] rs by auto
    have st: "tasks (step hp i \<sigma>) = (tasks \<sigma> @ new)[n := (a, p1)]"
      using Resume True t rs nw by simp
    show ?thesis
      unfolding uncaught_def
    proof
      assume "Caught \<in> snd ` set (tasks \<sigma>)"
      then obtain k where k: "k < length (tasks \<sigma>)" "snd (tasks \<sigma> ! k) = Caught"
        by (auto simp: in_set_conv_nth)
      have "snd ((tasks \<sigma> @ new)[n := (a, p1)] ! k) = Caught"
      proof (cases "k = n")
        case True
        then have "p = Caught" using k t by simp
        then have "p1 = Caught" using rs by simp
        then show ?thesis using True k by simp
      next
        case False
        then show ?thesis using k by (simp add: nth_append)
      qed
      moreover have "k < length ((tasks \<sigma> @ new)[n := (a, p1)])" using k by simp
      ultimately have "Caught \<in> snd ` set ((tasks \<sigma> @ new)[n := (a, p1)])"
        by (metis nth_mem image_eqI)
      then show False using assms st by (simp add: uncaught_def)
    qed
  qed
qed

lemma serial_step:
  assumes "serial \<sigma>" and "uncaught (step hp i \<sigma>)"
  shows "serial (step hp i \<sigma>)
         \<and> started (step hp i \<sigma>) @ evalQueue (step hp i \<sigma>)
             = started \<sigma> @ evalQueue \<sigma> @ submitted [i]"
proof (cases i)
  case (Submit a)
  then show ?thesis using assms(1)
    by (auto simp: serial_def evaluating_def started_def fork_task_def
          setFormEvaluationSagaAsync_def emit_def setIsEvaluating_def split: if_splits)
next
  case (Resume n r)
  show ?thesis
  proof (cases "n < length (tasks \<sigma>)")
    case False
    then show ?thesis using assms Resume by simp
  next
    case True
    obtain a p where t: "tasks \<sigma> ! n = (a, p)" by force
    obtain \<sigma>1 p1 where rs: "resume hp p r \<sigma> = (\<sigma>1, p1)" by force
    obtain new where nw: "tasks \<sigma>1 = tasks \<sigma> @ new"
      using resume_tasks [of hp p r \<sigma>] rs by auto
    have st: "step hp i \<sigma> = \<sigma>1\<lparr>tasks := (tasks \<sigma>1)[n := (a, p1)]\<rparr>"
      using Resume True t rs by simp
    have n1: "n < length (tasks \<sigma>1)" using True nw by simp
    have "(a, p1) \<in> set ((tasks \<sigma>1)[n := (a, p1)])"
      using n1 by (simp add: set_update_memI)
    then have nc: "p1 \<noteq> Caught" using assms(2) st by (force simp: uncaught_def)
    have at_n: "tasks \<sigma>1 ! n = (a, p)" using nw True t by (simp add: nth_append)
    have ev: "length (evaluating (step hp i \<sigma>)) + (if eval_phase p then 1 else 0)
               = length (filter (\<lambda>t. eval_phase (snd t)) (tasks \<sigma>1)) + (if eval_phase p1 then 1 else 0)"
      using filter_update_length [OF n1, of "\<lambda>t. eval_phase (snd t)" "(a, p1)"] at_n st
      by (simp add: evaluating_def)
    from resume_control [OF rs] nc consider
        (same) "same_control \<sigma> \<sigma>1" "eval_phase p1 = eval_phase p" "(p1 = Enqueued) = (p = Enqueued)"
      | (drained) "eval_phase p" "\<not> eval_phase p1" "p1 \<noteq> Enqueued" "evalQueue \<sigma> = []"
          "\<not> isEvaluating \<sigma>1" "evalQueue \<sigma>1 = []" "tasks \<sigma>1 = tasks \<sigma>"
      | (forked) nx rest where "eval_phase p" "\<not> eval_phase p1" "p1 \<noteq> Enqueued"
          "evalQueue \<sigma> = nx # rest" "evalQueue \<sigma>1 = rest" "isEvaluating \<sigma>1"
          "tasks \<sigma>1 = tasks \<sigma> @ [(nx, AtSelect nx)]"
      by blast
    then show ?thesis
    proof cases
      case same
      have ts: "tasks \<sigma>1 = tasks \<sigma>" using same(1) by (simp add: same_control_def)
      have "started (step hp i \<sigma>) = started \<sigma>"
        using map_filter_update [OF n1, of "(a, p1)" "\<lambda>t. snd t \<noteq> Enqueued"] at_n same(3) st ts
        by (simp add: started_def)
      moreover have "length (evaluating (step hp i \<sigma>)) = length (evaluating \<sigma>)"
        using ev same(2) ts by (simp add: evaluating_def)
      ultimately show ?thesis using assms(1) same(1) st Resume
        by (simp add: serial_def same_control_def)
    next
      case drained
      have pe: "p \<noteq> Enqueued" using drained(1) by auto
      have "started (step hp i \<sigma>) = started \<sigma>"
        using map_filter_update [OF n1, of "(a, p1)" "\<lambda>t. snd t \<noteq> Enqueued"] at_n drained pe st
        by (simp add: started_def)
      moreover have "(a, p) \<in> set (evaluating \<sigma>)"
        using True t drained(1) by (auto simp: evaluating_def in_set_conv_nth)
      then have "length (evaluating \<sigma>) \<noteq> 0" by auto
      then have "length (evaluating \<sigma>) = 1" using assms(1) by (auto simp: serial_def split: if_splits)
      then have "length (evaluating (step hp i \<sigma>)) = 0"
        using ev drained by (simp add: evaluating_def)
      ultimately show ?thesis using drained st Resume
        by (simp add: serial_def)
    next
      case forked
      have pe: "p \<noteq> Enqueued" using forked(1) by auto
      have "started (step hp i \<sigma>) = started \<sigma> @ [nx]"
        using map_filter_update [OF n1, of "(a, p1)" "\<lambda>t. snd t \<noteq> Enqueued"] at_n forked pe st
        by (simp add: started_def)
      moreover have "(a, p) \<in> set (evaluating \<sigma>)"
        using True t forked(1) by (auto simp: evaluating_def in_set_conv_nth)
      then have "length (evaluating \<sigma>) \<noteq> 0" by auto
      then have "length (evaluating \<sigma>) = 1" using assms(1) by (auto simp: serial_def split: if_splits)
      then have "length (evaluating (step hp i \<sigma>)) = 1"
        using ev forked by (simp add: evaluating_def)
      ultimately show ?thesis using forked st Resume
        by (simp add: serial_def)
    qed
  qed
qed

lemma submitted_append: "submitted (xs @ ys) = submitted xs @ submitted ys"
  by (induction xs rule: submitted.induct) simp_all

lemma run_snoc: "run hp (ins @ [i]) \<sigma> = step hp i (run hp ins \<sigma>)"
  by (simp add: run_def)

lemma serial_run:
  "uncaught (run hp ins (idle s)) \<Longrightarrow>
   serial (run hp ins (idle s))
   \<and> started (run hp ins (idle s)) @ evalQueue (run hp ins (idle s)) = submitted ins"
proof (induction ins rule: rev_induct)
  case Nil
  then show ?case by (simp add: run_def idle_def serial_def evaluating_def started_def)
next
  case (snoc i ins)
  have u: "uncaught (step hp i (run hp ins (idle s)))" using snoc.prems by (simp add: run_snoc)
  from snoc.IH [OF uncaught_step [OF u]] serial_step [OF _ u]
  show ?case by (simp add: run_snoc submitted_append)
qed

lemma uncaught_prefix: "uncaught (run hp (xs @ ys) \<sigma>) \<Longrightarrow> uncaught (run hp xs \<sigma>)"
proof (induction ys rule: rev_induct)
  case Nil
  then show ?case by simp
next
  case (snoc y ys)
  have "run hp (xs @ ys @ [y]) \<sigma> = step hp y (run hp (xs @ ys) \<sigma>)"
    using run_snoc [of hp "xs @ ys" y \<sigma>] by simp
  then have "uncaught (run hp (xs @ ys) \<sigma>)" using snoc.prems uncaught_step by simp
  then show ?case by (rule snoc.IH)
qed

text \<open>
  C1, as amended. Take a run (requests submitted and tasks resumed by the middleware,
  in any order) in which no task ends in the catch block of lines 125 to 128. At every
  instant of the run, that is after each prefix of its inputs: the requests whose
  evaluation has begun, in the order in which they began, followed by the queued ones,
  are the requests submitted so far in their order of arrival (none is lost or
  overtaken); at most one task is between its state read and the end of its publish;
  and the busy flag is set exactly when there is one. This evaluation phase is the unit
  that is serialized: the race, the delay and the fetch cascade lie outside it.
\<close>

theorem evaluations_begin_in_arrival_order:
  assumes "uncaught (run hp ins (idle s))"
  shows "started (run hp (take n ins) (idle s)) @ evalQueue (run hp (take n ins) (idle s))
           = submitted (take n ins)
         \<and> length (evaluating (run hp (take n ins) (idle s))) \<le> 1
         \<and> (isEvaluating (run hp (take n ins) (idle s))
              \<longleftrightarrow> evaluating (run hp (take n ins) (idle s)) \<noteq> [])"
proof -
  have "uncaught (run hp (take n ins @ drop n ins) (idle s))" using assms by simp
  then have "uncaught (run hp (take n ins) (idle s))" by (rule uncaught_prefix)
  from serial_run [OF this] show ?thesis by (auto simp: serial_def split: if_splits)
qed

text \<open>The definitions unfolded to evaluate a concrete run.\<close>

lemmas ev_simps = run_def idle_def fork_task_def setFormEvaluationSagaAsync_def emit_def
  setIsEvaluating_def after_publish_def seq_catch_def Let_def demo_action_def
  extractQueueOfValuesToBeFetched_def js_entries_def allowed_to_fetch_def spread_def
  lookup_def demo_store_def demo_evalOutput_def demo_response_def

text \<open>
  C1 fails as stated. First: after the evaluation of request \<open>f\<close> the busy flag is clear
  while its cascade is still waiting at the delay of line 112, and a request \<open>g\<close>
  submitted then begins its evaluation at once. Second: when the evaluation call of
  \<open>f\<close> throws while \<open>g\<close> is queued, the catch block clears the flag and leaves \<open>g\<close> in
  the queue, and a request \<open>h\<close> submitted then begins before \<open>g\<close>. Third: when the put
  of line 152 throws in the cascade of \<open>f\<close> while \<open>g\<close> is being evaluated, the catch
  block clears the flag that \<open>g\<close> had set, and a request \<open>h\<close> submitted then is
  evaluated at the same time as \<open>g\<close>.
\<close>

theorem cascade_and_catch_leave_flag_clear:
  "\<not> isEvaluating (run demo_helpers
        [Submit (demo_action ''f''), Resume 0 (Ret JUndefined), Resume 0 (Ret demo_response),
         Resume 0 (Ret JUndefined), Resume 0 (Ret JUndefined)] (idle demo_store))
   \<and> tasks (run demo_helpers
        [Submit (demo_action ''f''), Resume 0 (Ret JUndefined), Resume 0 (Ret demo_response),
         Resume 0 (Ret JUndefined), Resume 0 (Ret JUndefined)] (idle demo_store))
      = [(demo_action ''f'', AtDelay (demo_action ''f'') demo_evalOutput demo_evalOutput)]
   \<and> tasks (run demo_helpers
        [Submit (demo_action ''f''), Resume 0 (Ret JUndefined), Resume 0 (Ret demo_response),
         Resume 0 (Ret JUndefined), Resume 0 (Ret JUndefined), Submit (demo_action ''g'')] (idle demo_store))
      = [(demo_action ''f'', AtDelay (demo_action ''f'') demo_evalOutput demo_evalOutput),
         (demo_action ''g'', AtSelect (demo_action ''g''))]
   \<and> submitted [Submit (demo_action ''f''), Submit (demo_action ''g''), Resume 0 (Ret JUndefined),
         Resume 0 (Thr (JStr ''boom'')), Submit (demo_action ''h'')]
      = [demo_action ''f'', demo_action ''g'', demo_action ''h'']
   \<and> tasks (run demo_helpers
        [Submit (demo_action ''f''), Submit (demo_action ''g''), Resume 0 (Ret JUndefined),
         Resume 0 (Thr (JStr ''boom'')), Submit (demo_action ''h'')] (idle demo_store))
      = [(demo_action ''f'', Caught), (demo_action ''g'', Enqueued),
         (demo_action ''h'', AtSelect (demo_action ''h''))]
   \<and> started (run demo_helpers
        [Submit (demo_action ''f''), Submit (demo_action ''g''), Resume 0 (Ret JUndefined),
         Resume 0 (Thr (JStr ''boom'')), Submit (demo_action ''h'')] (idle demo_store))
      = [demo_action ''f'', demo_action ''h'']
   \<and> evalQueue (run demo_helpers
        [Submit (demo_action ''f''), Submit (demo_action ''g''), Resume 0 (Ret JUndefined),
         Resume 0 (Thr (JStr ''boom'')), Submit (demo_action ''h'')] (idle demo_store))
      = [demo_action ''g'']
   \<and> tasks (run demo_helpers
        [Submit (demo_action ''f''), Resume 0 (Ret JUndefined), Resume 0 (Ret plain_response),
         Resume 0 (Ret JUndefined), Resume 0 (Ret JUndefined), Resume 0 (Ret JUndefined),
         Submit (demo_action ''g'')] (idle empty_store))
      = [(demo_action ''f'', AtFetch (demo_action ''f'')
            (FaPut \<lparr>fa_queue = JObj [], fa_formId = ''f'', fa_evalOutput = plain_evalOutput,
                     fa_datasourceId = ''d'', fa_pluginId = []\<rparr>)),
         (demo_action ''g'', AtSelect (demo_action ''g''))]
   \<and> evaluating (run demo_helpers
        [Submit (demo_action ''f''), Resume 0 (Ret JUndefined), Resume 0 (Ret plain_response),
         Resume 0 (Ret JUndefined), Resume 0 (Ret JUndefined), Resume 0 (Ret JUndefined),
         Submit (demo_action ''g''), Resume 0 (Thr (JStr ''boom'')), Submit (demo_action ''h'')]
        (idle empty_store))
      = [(demo_action ''g'', AtSelect (demo_action ''g'')),
         (demo_action ''h'', AtSelect (demo_action ''h''))]"
  by (simp add: ev_simps started_def evaluating_def plain_evalOutput_def plain_response_def
        empty_store_def fa_start_def js_keys_def string_or_empty_def)

theorem evaluations_begin_in_arrival_order_witness:
  "uncaught (run demo_helpers
      [Submit (demo_action ''f''), Submit (demo_action ''g''), Resume 0 (Ret JUndefined),
       Resume 0 (Ret demo_response), Resume 0 (Ret JUndefined)] (idle demo_store))
   \<and> started (run demo_helpers [Submit (demo_action ''f''), Submit (demo_action ''g'')]
        (idle demo_store)) = [demo_action ''f'']
   \<and> evalQueue (run demo_helpers [Submit (demo_action ''f''), Submit (demo_action ''g'')]
        (idle demo_store)) = [demo_action ''g'']
   \<and> evaluating (run demo_helpers [Submit (demo_action ''f''), Submit (demo_action ''g'')]
        (idle demo_store)) = [(demo_action ''f'', AtSelect (demo_action ''f''))]
   \<and> isEvaluating (run demo_helpers [Submit (demo_action ''f''), Submit (demo_action ''g'')]
        (idle demo_store))
   \<and> started (run demo_helpers
      [Submit (demo_action ''f''), Submit (demo_action ''g''), Resume 0 (Ret JUndefined),
       Resume 0 (Ret demo_response), Resume 0 (Ret JUndefined)] (idle demo_store))
     = [demo_action ''f'', demo_action ''g'']
   \<and> evalQueue (run demo_helpers
      [Submit (demo_action ''f''), Submit (demo_action ''g''), Resume 0 (Ret JUndefined),
       Resume 0 (Ret demo_response), Resume 0 (Ret JUndefined)] (idle demo_store)) = []
   \<and> evaluating (run demo_helpers
      [Submit (demo_action ''f''), Submit (demo_action ''g''), Resume 0 (Ret JUndefined),
       Resume 0 (Ret demo_response), Resume 0 (Ret JUndefined)] (idle demo_store))
     = [(demo_action ''g'', AtSelect (demo_action ''g''))]"
proof -
  let ?ins = "[Submit (demo_action ''f''), Submit (demo_action ''g''), Resume 0 (Ret JUndefined),
       Resume 0 (Ret demo_response), Resume 0 (Ret JUndefined)]"
  have ts: "tasks (run demo_helpers ?ins (idle demo_store))
     = [(demo_action ''f'', Finished), (demo_action ''g'', Enqueued),
        (demo_action ''g'', AtSelect (demo_action ''g''))]"
    by (simp add: ev_simps)
  have t2: "tasks (run demo_helpers [Submit (demo_action ''f''), Submit (demo_action ''g'')]
              (idle demo_store))
     = [(demo_action ''f'', AtSelect (demo_action ''f'')), (demo_action ''g'', Enqueued)]"
    by (simp add: ev_simps)
  have u: "uncaught (run demo_helpers ?ins (idle demo_store))"
    by (simp add: ts uncaught_def)
  have k2: "take 2 ?ins = [Submit (demo_action ''f''), Submit (demo_action ''g'')]" by simp
  have k5: "take 5 ?ins = ?ins" by simp
  note at2 = evaluations_begin_in_arrival_order [OF u, of 2, unfolded k2]
  note at5 = evaluations_begin_in_arrival_order [OF u, of 5, unfolded k5]
  have e2: "evaluating (run demo_helpers [Submit (demo_action ''f''), Submit (demo_action ''g'')]
              (idle demo_store)) = [(demo_action ''f'', AtSelect (demo_action ''f''))]"
    by (simp add: evaluating_def t2)
  have s2: "started (run demo_helpers [Submit (demo_action ''f''), Submit (demo_action ''g'')]
              (idle demo_store)) = [demo_action ''f'']"
    by (simp add: started_def t2)
  have q2: "evalQueue (run demo_helpers [Submit (demo_action ''f''), Submit (demo_action ''g'')]
              (idle demo_store)) = [demo_action ''g'']"
    using at2 [THEN conjunct1] s2 by simp
  have b2: "isEvaluating (run demo_helpers [Submit (demo_action ''f''), Submit (demo_action ''g'')]
              (idle demo_store))"
    using at2 [THEN conjunct2, THEN conjunct2] e2 by simp
  have e5: "evaluating (run demo_helpers ?ins (idle demo_store))
              = [(demo_action ''g'', AtSelect (demo_action ''g''))]"
    by (simp add: evaluating_def ts)
  have s5: "started (run demo_helpers ?ins (idle demo_store)) = [demo_action ''f'', demo_action ''g'']"
    by (simp add: started_def ts)
  have q5: "evalQueue (run demo_helpers ?ins (idle demo_store)) = []"
    using at5 [THEN conjunct1] s5 by simp
  note facts = u s2 q2 e2 b2 s5 q5 e5
  show ?thesis by (intro conjI; fact facts)
qed

lemma nullish_not_truthy: "nullish w \<Longrightarrow> \<not> truthy w"
  by (cases w) simp_all

lemma falsy_get_cases:
  "\<not> truthy w \<Longrightarrow>
   (nullish w \<and> js_get s w k = None)
   \<or> (\<not> nullish w \<and> (\<exists>v. js_get s w k = Some v \<and> \<not> truthy v))"
  by (cases w) (auto simp: lookup_def index_props_def)

lemma extract_loop_none_allowed:
  "\<forall>(k, v) \<in> set es. allowed_to_fetch s v = Some False \<Longrightarrow> extract_loop s es acc = Some acc"
  by (induction es arbitrary: acc) auto

lemma is_object_not_nullish: "is_object v \<Longrightarrow> \<not> nullish v"
  by (cases v) simp_all

text \<open>
  The guard of line 84 is a test of truthiness. When the worker response is falsy
  (undefined, null, false, 0 or the empty string) nothing is published and the queue is
  still served: the flag is cleared and the oldest queued request is forked, which sets
  the flag again and starts its cycle; with an empty queue the flag stays clear (the
  read of \<^verbatim>\<open>workerResponse[formId]\<close> throws on undefined and null and is caught). A truthy
  worker response is published as it is.
\<close>

lemma falsy_response_is_not_published:
  "(\<not> truthy w \<longrightarrow>
      resume hp (AtEval a) (Ret w) \<sigma> =
        (case evalQueue \<sigma> of
           nextAction # rest \<Rightarrow>
             (\<sigma>\<lparr>isEvaluating := True, evalQueue := rest,
                 trace := trace \<sigma> @ [Fork nextAction, Select ''getFormEvaluationState'' []],
                 tasks := tasks \<sigma> @ [(nextAction, AtSelect nextAction)]\<rparr>, Finished)
         | [] \<Rightarrow>
             if nullish w
             then (\<sigma>\<lparr>isEvaluating := False, trace := trace \<sigma> @ [LogError TypeError]\<rparr>, Caught)
             else (\<sigma>\<lparr>isEvaluating := False\<rparr>, Finished)))
   \<and> (truthy w \<longrightarrow>
      resume hp (AtEval a) (Ret w) \<sigma> =
        (\<sigma>\<lparr>trace := trace \<sigma> @ [Put ''SET_FORM_EVALUATION'' w]\<rparr>, AtPut a w))"
proof (intro conjI impI)
  assume f: "\<not> truthy w"
  show "resume hp (AtEval a) (Ret w) \<sigma> =
        (case evalQueue \<sigma> of
           nextAction # rest \<Rightarrow>
             (\<sigma>\<lparr>isEvaluating := True, evalQueue := rest,
                 trace := trace \<sigma> @ [Fork nextAction, Select ''getFormEvaluationState'' []],
                 tasks := tasks \<sigma> @ [(nextAction, AtSelect nextAction)]\<rparr>, Finished)
         | [] \<Rightarrow>
             if nullish w
             then (\<sigma>\<lparr>isEvaluating := False, trace := trace \<sigma> @ [LogError TypeError]\<rparr>, Caught)
             else (\<sigma>\<lparr>isEvaluating := False\<rparr>, Finished))"
  proof (cases "evalQueue \<sigma>")
    case Nil
    from falsy_get_cases [OF f, of "heap \<sigma>" "formId (payload a)"]
    show ?thesis using f Nil
      by (auto simp: after_publish_def setIsEvaluating_def seq_catch_def emit_def)
  next
    case (Cons n rest)
    then show ?thesis using f
      by (simp add: after_publish_def setIsEvaluating_def fork_task_def
            setFormEvaluationSagaAsync_def emit_def)
  qed
next
  assume "truthy w"
  then show "resume hp (AtEval a) (Ret w) \<sigma> =
        (\<sigma>\<lparr>trace := trace \<sigma> @ [Put ''SET_FORM_EVALUATION'' w]\<rparr>, AtPut a w)"
    by (simp add: emit_def)
qed

lemma falsy_response_is_not_published_witness:
  "\<not> truthy JUndefined
   \<and> resume demo_helpers (AtEval (demo_action ''f'')) (Ret JUndefined)
       ((idle empty_store)\<lparr>isEvaluating := True, evalQueue := [demo_action ''g'']\<rparr>) =
       ((idle empty_store)\<lparr>isEvaluating := True, evalQueue := [],
           trace := [Fork (demo_action ''g''), Select ''getFormEvaluationState'' []],
           tasks := [(demo_action ''g'', AtSelect (demo_action ''g''))]\<rparr>, Finished)
   \<and> truthy plain_response
   \<and> resume demo_helpers (AtEval (demo_action ''f'')) (Ret plain_response)
       ((idle empty_store)\<lparr>isEvaluating := True\<rparr>) =
       ((idle empty_store)\<lparr>isEvaluating := True,
           trace := [Put ''SET_FORM_EVALUATION'' plain_response]\<rparr>,
        AtPut (demo_action ''f'') plain_response)"
  using falsy_response_is_not_published [of JUndefined demo_helpers "demo_action ''f''"
          "(idle empty_store)\<lparr>isEvaluating := True, evalQueue := [demo_action ''g'']\<rparr>"]
        falsy_response_is_not_published [of plain_response demo_helpers "demo_action ''f''"
          "(idle empty_store)\<lparr>isEvaluating := True\<rparr>"]
  by (simp add: idle_def plain_response_def)

text \<open>
  C6. The comment of line 83 says that the evaluation state is updated only if the
  worker response is not empty. The guard of line 84 does not do that: the empty object
  is truthy, and when the evaluation function returns it the saga yields the put of
  \<^verbatim>\<open>SET_FORM_EVALUATION\<close> with the empty object as payload.
\<close>

theorem empty_object_is_published:
  "\<not> truthy JUndefined \<and> truthy (JObj [])
   \<and> trace (run demo_helpers
        [Submit (demo_action ''f''), Resume 0 (Ret JUndefined), Resume 0 (Ret (JObj []))]
        (idle empty_store))
     = [Select ''getFormEvaluationState'' [],
        CallEvalFormConfig (demo_action ''f'') JUndefined,
        Put ''SET_FORM_EVALUATION'' (JObj [])]"
  by (simp add: ev_simps)

text \<open>
  C5, as amended. When a cycle ends with an empty queue and the evaluation output of
  the form is a truthy object whose extraction does not throw, the task waits at the
  race and at the delay and then calls \<^verbatim>\<open>fetchDynamicValuesSaga\<close> with whatever was
  extracted. When no field is allowed to fetch, the extracted mapping is empty, the
  saga is still called, and it publishes the evaluation output of the form.
\<close>

theorem fetcher_is_called_for_every_output:
  assumes "evalQueue \<sigma> = []"
    and "js_get (heap \<sigma>) w (formId (payload a)) = Some evalOutput"
    and "truthy evalOutput" and "is_object evalOutput"
    and "extractQueueOfValuesToBeFetched (heap \<sigma>) evalOutput = Some q"
  shows "resume hp (AtPut a w) (Ret x) \<sigma> =
           (\<sigma>\<lparr>isEvaluating := False,
               trace := trace \<sigma> @ [Race [''SET_LOADING_ENTITIES'', ''SET_EVALUATION_INVERSE_DEPENDENCY_MAP'']]\<rparr>,
            AtRace a evalOutput q)
     \<and> resume hp (AtRace a evalOutput q) (Ret y) \<sigma>' =
           (\<sigma>'\<lparr>trace := trace \<sigma>' @ [Delay 500]\<rparr>, AtDelay a evalOutput q)
     \<and> (\<exists>es. trace (fst (resume hp (AtDelay a evalOutput q) (Ret z) \<sigma>'')) =
           trace \<sigma>'' @ CallFetchDynamicValuesSaga q (formId (payload a)) evalOutput
               (string_or_empty (datasourceId (payload a)))
               (string_or_empty (pluginId (payload a))) # es)
     \<and> ((\<forall>(k, v) \<in> set (own_props (heap \<sigma>) evalOutput). allowed_to_fetch (heap \<sigma>) v = Some False)
          \<longrightarrow> q = JObj []
            \<and> trace (fst (resume hp (AtDelay a evalOutput q) (Ret z) \<sigma>'')) =
                trace \<sigma>'' @ [CallFetchDynamicValuesSaga q (formId (payload a)) evalOutput
                   (string_or_empty (datasourceId (payload a)))
                   (string_or_empty (pluginId (payload a))),
                 Put ''SET_FORM_EVALUATION'' (JObj [(formId (payload a), evalOutput)])])"
proof (intro conjI impI)
  show "resume hp (AtPut a w) (Ret x) \<sigma> =
           (\<sigma>\<lparr>isEvaluating := False,
               trace := trace \<sigma> @ [Race [''SET_LOADING_ENTITIES'', ''SET_EVALUATION_INVERSE_DEPENDENCY_MAP'']]\<rparr>,
            AtRace a evalOutput q)"
    using assms by (simp add: after_publish_def setIsEvaluating_def emit_def)
next
  show "resume hp (AtRace a evalOutput q) (Ret y) \<sigma>' =
           (\<sigma>'\<lparr>trace := trace \<sigma>' @ [Delay 500]\<rparr>, AtDelay a evalOutput q)"
    by (simp add: emit_def)
next
  let ?F = "\<lparr>fa_queue = q, fa_formId = formId (payload a), fa_evalOutput = evalOutput,
                fa_datasourceId = string_or_empty (datasourceId (payload a)),
                fa_pluginId = string_or_empty (pluginId (payload a))\<rparr>"
  let ?c = "CallFetchDynamicValuesSaga q (formId (payload a)) evalOutput
               (string_or_empty (datasourceId (payload a)))
               (string_or_empty (pluginId (payload a)))"
  obtain \<sigma>1 fp where fs: "fa_start hp ?F (emit ?c \<sigma>'') = (\<sigma>1, fp)" by force
  have "same_control (emit ?c \<sigma>'') \<sigma>1" using fa_start_control [of "emit ?c \<sigma>''" hp ?F] fs by simp
  then obtain es where es: "trace \<sigma>1 = trace \<sigma>'' @ ?c # es"
    by (auto simp: same_control_def emit_def)
  have "\<exists>es'. trace (fst (seq_fetch a (\<sigma>1, fp))) = trace \<sigma>1 @ es'"
    by (cases fp) (simp_all add: seq_catch_def setIsEvaluating_def emit_def)
  then show "\<exists>es. trace (fst (resume hp (AtDelay a evalOutput q) (Ret z) \<sigma>'')) = trace \<sigma>'' @ ?c # es"
    using fs es by (auto simp: Let_def)
next
  assume none: "\<forall>(k, v) \<in> set (own_props (heap \<sigma>) evalOutput). allowed_to_fetch (heap \<sigma>) v = Some False"
  show "q = JObj []"
    using assms(4,5) extract_loop_none_allowed [OF none, of "[]"] is_object_not_nullish [OF assms(4)]
    by (simp add: extractQueueOfValuesToBeFetched_def js_entries_def)
next
  assume none: "\<forall>(k, v) \<in> set (own_props (heap \<sigma>) evalOutput). allowed_to_fetch (heap \<sigma>) v = Some False"
  have q: "q = JObj []"
    using assms(4,5) extract_loop_none_allowed [OF none, of "[]"] is_object_not_nullish [OF assms(4)]
    by (simp add: extractQueueOfValuesToBeFetched_def js_entries_def)
  show "trace (fst (resume hp (AtDelay a evalOutput q) (Ret z) \<sigma>'')) =
                trace \<sigma>'' @ [CallFetchDynamicValuesSaga q (formId (payload a)) evalOutput
                   (string_or_empty (datasourceId (payload a)))
                   (string_or_empty (pluginId (payload a))),
                 Put ''SET_FORM_EVALUATION'' (JObj [(formId (payload a), evalOutput)])]"
    by (simp add: q Let_def fa_start_def js_keys_def emit_def)
qed

theorem fetcher_is_called_for_every_output_witness:
  "evalQueue ((idle empty_store)\<lparr>isEvaluating := True\<rparr>) = []
   \<and> js_get empty_store plain_response ''f'' = Some plain_evalOutput
   \<and> truthy plain_evalOutput \<and> is_object plain_evalOutput
   \<and> extractQueueOfValuesToBeFetched empty_store plain_evalOutput = Some (JObj [])
   \<and> own_props empty_store plain_evalOutput = [(''A'', JObj [(''visible'', JBool True)])]
   \<and> allowed_to_fetch empty_store (JObj [(''visible'', JBool True)]) = Some False
   \<and> trace (fst (resume demo_helpers (AtDelay (demo_action ''f'') plain_evalOutput (JObj []))
                (Ret JUndefined) (idle empty_store))) =
       [CallFetchDynamicValuesSaga (JObj []) ''f'' plain_evalOutput ''d'' [],
        Put ''SET_FORM_EVALUATION'' (JObj [(''f'', plain_evalOutput)])]"
proof -
  have h1: "evalQueue ((idle empty_store)\<lparr>isEvaluating := True\<rparr>) = []"
    by (simp add: idle_def)
  have h2: "js_get (heap ((idle empty_store)\<lparr>isEvaluating := True\<rparr>)) plain_response
              (formId (payload (demo_action ''f''))) = Some plain_evalOutput"
    by (simp add: idle_def plain_response_def demo_action_def lookup_def)
  have h3: "truthy plain_evalOutput" and h4: "is_object plain_evalOutput"
    by (simp_all add: plain_evalOutput_def)
  have h5: "extractQueueOfValuesToBeFetched (heap ((idle empty_store)\<lparr>isEvaluating := True\<rparr>))
              plain_evalOutput = Some (JObj [])"
    by (simp add: idle_def plain_evalOutput_def extractQueueOfValuesToBeFetched_def
          js_entries_def allowed_to_fetch_def)
  have h6: "\<forall>(k, v) \<in> set (own_props (heap ((idle empty_store)\<lparr>isEvaluating := True\<rparr>))
              plain_evalOutput). allowed_to_fetch (heap ((idle empty_store)\<lparr>isEvaluating := True\<rparr>)) v
              = Some False"
    by (simp add: idle_def plain_evalOutput_def allowed_to_fetch_def)
  from fetcher_is_called_for_every_output [OF h1 h2 h3 h4 h5, of demo_helpers JUndefined
         JUndefined "idle empty_store" JUndefined "idle empty_store"] h6
  have "trace (fst (resume demo_helpers (AtDelay (demo_action ''f'') plain_evalOutput (JObj []))
                (Ret JUndefined) (idle empty_store))) =
        trace (idle empty_store) @
          [CallFetchDynamicValuesSaga (JObj []) (formId (payload (demo_action ''f''))) plain_evalOutput
             (string_or_empty (datasourceId (payload (demo_action ''f''))))
             (string_or_empty (pluginId (payload (demo_action ''f'')))),
           Put ''SET_FORM_EVALUATION'' (JObj [(formId (payload (demo_action ''f'')), plain_evalOutput)])]"
    by blast
  then show ?thesis using h1 h2 h3 h4 h5
    by (simp add: idle_def demo_action_def string_or_empty_def plain_evalOutput_def
          allowed_to_fetch_def)
qed

text \<open>
  C5 fails as stated: with an evaluation output in which no field is allowed to fetch,
  the cycle waits at the race and the delay, calls the fetcher and publishes.
\<close>

theorem fetcher_called_with_nothing_to_fetch:
  "extractQueueOfValuesToBeFetched empty_store plain_evalOutput = Some (JObj [])
   \<and> trace (run demo_helpers
        [Submit (demo_action ''f''), Resume 0 (Ret JUndefined), Resume 0 (Ret plain_response),
         Resume 0 (Ret JUndefined), Resume 0 (Ret JUndefined), Resume 0 (Ret JUndefined)]
        (idle empty_store))
     = [Select ''getFormEvaluationState'' [],
        CallEvalFormConfig (demo_action ''f'') JUndefined,
        Put ''SET_FORM_EVALUATION'' plain_response,
        Race [''SET_LOADING_ENTITIES'', ''SET_EVALUATION_INVERSE_DEPENDENCY_MAP''],
        Delay 500,
        CallFetchDynamicValuesSaga (JObj []) ''f'' plain_evalOutput ''d'' [],
        Put ''SET_FORM_EVALUATION'' (JObj [(''f'', plain_evalOutput)])]"
  by (simp add: ev_simps plain_evalOutput_def plain_response_def empty_store_def
        fa_start_def js_keys_def string_or_empty_def)

section \<open>Properties of fetchDynamicValueSaga\<close>

lemma lookup_update: "lookup (AList.update k v ps) k' = (if k' = k then v else lookup ps k')"
  by (simp add: lookup_def update_conv')

lemma field_set_field:
  "field (set_field s a k v) a' k' = (if a' = a \<and> k' = k then v else field s a' k')"
  by (simp add: field_def set_field_def lookup_update)

lemma heap_put_field: "heap (put_field a k v \<sigma>) = set_field (heap \<sigma>) a k v"
  by (simp add: put_field_def)

lemma trace_put_field: "trace (put_field a k v \<sigma>) = trace \<sigma>"
  by (simp add: put_field_def)

lemma heap_emit: "heap (emit e \<sigma>) = heap \<sigma>"
  by (simp add: emit_def)

lemma trace_emit: "trace (emit e \<sigma>) = trace \<sigma> @ [e]"
  by (simp add: emit_def)

lemmas fo_fields = heap_put_field trace_put_field heap_emit trace_emit field_set_field

lemma fo_catch_post:
  "fo_catch e d \<sigma> = (\<sigma>', p) \<Longrightarrow>
   p = FoReturn \<and> failed_state (heap \<sigma>') d \<and> trace \<sigma>' = trace \<sigma> @ [LogError e]
   \<and> field (heap \<sigma>') d ''hasStarted'' = field (heap \<sigma>) d ''hasStarted''"
  by (auto simp: fo_catch_def failed_state_def fo_fields)

lemma fo_start_owner: "fo_owner d (snd (fo_start hp v d a ds pl cp \<sigma>))"
  by (simp add: fo_start_def fo_catch_def Let_def split: option.splits)

lemma fo_resume_owner: "fo_owner d p \<Longrightarrow> fo_owner d (snd (fo_resume hp p r \<sigma>))"
  by (cases p; cases r) (simp_all add: fo_catch_def Let_def split: option.splits)




lemma fo_resume_left: "p \<noteq> FoReturn \<Longrightarrow> fo_left (snd (fo_resume hp p r \<sigma>)) < fo_left p"
  by (cases p; cases r) (simp_all add: fo_catch_def Let_def split: option.splits)


lemma fo_start_left: "fo_left (snd (fo_start hp v d a ds pl cp \<sigma>)) \<le> 3"
  by (simp add: fo_start_def fo_catch_def Let_def split: option.splits)



lemma fo_run_stop: "fo_run hp rs (\<sigma>, FoReturn) = (\<sigma>, FoReturn)"
  by (cases rs) simp_all











lemmas fo_simps = fetchDynamicValueSaga_def fo_start_def fo_destructure_def fo_choose_url_def
  fo_request_def fo_evalAction_def fo_substitutedParameters_def fo_evaluatedValue_def
  fo_evaluatedParams_def fo_response_def fo_catch_def dotted_get_def js_opt_get_def js_entries_def
  spread_def lookup_def put_field_def emit_def set_field_def field_def index_props_def
  js_gt_zero_def Let_def digit_def
  demo_helpers_def spec_helpers_def spec_getDynamicBindings_def first_binding_def
  spec_getDataTreeActionConfigPath_def action_prefix_def spec_isDynamicValue_def
  demo_store_def demo_config_def demo_evaluatedConfig_def demo_entity_def demo_tree_def
  demo_api_response_def idle_def



lemma fo_resume_hasStarted:
  "fo_owner d p \<Longrightarrow>
   field (heap (fst (fo_resume hp p r \<sigma>))) d ''hasStarted'' = field (heap \<sigma>) d ''hasStarted''"
  by (cases p; cases r)
     (auto simp: fo_catch_def fo_fields Let_def split: option.splits)

lemma fo_run_hasStarted:
  "fo_owner d p \<Longrightarrow>
   field (heap (fst (fo_run hp rs (\<sigma>, p)))) d ''hasStarted'' = field (heap \<sigma>) d ''hasStarted''"
proof (induction rs arbitrary: \<sigma> p)
  case Nil
  then show ?case by simp
next
  case (Cons r rs)
  obtain \<sigma>1 p1 where s: "fo_resume hp p r \<sigma> = (\<sigma>1, p1)" by force
  have o: "fo_owner d p1" using fo_resume_owner [OF Cons.prems, of hp r \<sigma>] s by simp
  have "field (heap \<sigma>1) d ''hasStarted'' = field (heap \<sigma>) d ''hasStarted''"
    using fo_resume_hasStarted [OF Cons.prems, of hp r \<sigma>] s by simp
  with Cons.IH [OF o, of \<sigma>1] show ?case using s by simp
qed

text \<open>
  C10. When the value passed has no \<^verbatim>\<open>fetchDynamicValues\<close> (undefined or null), the
  destructuring of line 167 throws: the call returns at once, whatever the responses,
  with the TypeError logged, \<^verbatim>\<open>hasFetchFailed\<close> true, \<^verbatim>\<open>isLoading\<close> false and empty
  \<^verbatim>\<open>data\<close>, and \<^verbatim>\<open>hasStarted\<close> as it was. When the destructurings succeed,
  \<^verbatim>\<open>hasStarted\<close> is true from then on.
\<close>

theorem missing_request_keeps_hasStarted:
  "(js_get (heap \<sigma>) v ''fetchDynamicValues'' = Some fdv \<and> nullish fdv \<longrightarrow>
       caught_with TypeError d \<sigma> (fetchDynamicValueSaga hp v d a ds pl cp rs \<sigma>)
       \<and> field (heap (fst (fetchDynamicValueSaga hp v d a ds pl cp rs \<sigma>))) d ''hasStarted''
           = field (heap \<sigma>) d ''hasStarted'')
   \<and> (fo_destructure (heap \<sigma>) v \<noteq> None \<longrightarrow>
       field (heap (fst (fetchDynamicValueSaga hp v d a ds pl cp rs \<sigma>))) d ''hasStarted''
           = JBool True)"
proof (intro conjI impI)
  assume h: "js_get (heap \<sigma>) v ''fetchDynamicValues'' = Some fdv \<and> nullish fdv"
  then have "js_get (heap \<sigma>) fdv ''config'' = None" by (cases fdv) simp_all
  then have n: "fo_destructure (heap \<sigma>) v = None" using h by (simp add: fo_destructure_def)
  then have s: "fetchDynamicValueSaga hp v d a ds pl cp rs \<sigma> = fo_catch TypeError d \<sigma>"
    by (simp add: fetchDynamicValueSaga_def fo_start_def fo_catch_def fo_run_stop)
  show "caught_with TypeError d \<sigma> (fetchDynamicValueSaga hp v d a ds pl cp rs \<sigma>)"
    unfolding s by (simp add: caught_with_def fo_catch_def failed_state_def fo_fields)
  show "field (heap (fst (fetchDynamicValueSaga hp v d a ds pl cp rs \<sigma>))) d ''hasStarted''
           = field (heap \<sigma>) d ''hasStarted''"
    unfolding s by (simp add: fo_catch_def fo_fields)
next
  assume h: "fo_destructure (heap \<sigma>) v \<noteq> None"
  obtain \<sigma>0 p0 where s: "fo_start hp v d a ds pl cp \<sigma> = (\<sigma>0, p0)" by force
  have o: "fo_owner d p0" using fo_start_owner [of d hp v a ds pl cp \<sigma>] s by simp
  have "field (heap \<sigma>0) d ''hasStarted'' = JBool True"
    using h s by (auto simp: fo_start_def fo_catch_def Let_def fo_fields split: option.splits)
  with fo_run_hasStarted [OF o, of hp rs \<sigma>0]
  show "field (heap (fst (fetchDynamicValueSaga hp v d a ds pl cp rs \<sigma>))) d ''hasStarted''
           = JBool True"
    by (simp add: fetchDynamicValueSaga_def s)
qed

theorem missing_request_keeps_hasStarted_witness:
  "js_get (heap (idle bare_store)) (JRef 0) ''fetchDynamicValues'' = Some JUndefined
   \<and> nullish JUndefined
   \<and> caught_with TypeError 1 (idle bare_store)
        (fetchDynamicValueSaga demo_helpers (JRef 0) 1 ''f'' ''d'' [] ''A'' [] (idle bare_store))
   \<and> field (heap (fst (fetchDynamicValueSaga demo_helpers (JRef 0) 1 ''f'' ''d'' [] ''A'' []
              (idle bare_store)))) 1 ''hasStarted'' = JBool False
   \<and> fo_destructure (heap (idle demo_store)) (JRef 0) \<noteq> None
   \<and> field (heap (fst (fetchDynamicValueSaga demo_helpers (JRef 0) 2 ''f'' ''d'' [] ''A''
              [Ret demo_entity, Ret demo_tree, Ret demo_api_response] (idle demo_store)))) 2
        ''hasStarted'' = JBool True"
proof -
  have h1: "js_get (heap (idle bare_store)) (JRef 0) ''fetchDynamicValues'' = Some JUndefined
            \<and> nullish JUndefined"
    by (simp add: idle_def bare_store_def lookup_def)
  have h2: "fo_destructure (heap (idle demo_store)) (JRef 0) \<noteq> None"
    by (simp add: fo_simps)
  have f: "field (heap (idle bare_store)) 1 ''hasStarted'' = JBool False"
    by (simp add: idle_def bare_store_def field_def lookup_def)
  from missing_request_keeps_hasStarted [where \<sigma> = "idle bare_store" and v = "JRef 0" and fdv = JUndefined and d = 1
         and hp = demo_helpers and a = "''f''" and ds = "''d''" and pl = "[]" and cp = "''A''"
         and rs = "[]"]
       missing_request_keeps_hasStarted [where \<sigma> = "idle demo_store" and v = "JRef 0" and d = 2
         and hp = demo_helpers and a = "''f''" and ds = "''d''" and pl = "[]" and cp = "''A''"
         and rs = "[Ret demo_entity, Ret demo_tree, Ret demo_api_response]"]
       h1 h2 f
  show ?thesis by simp
qed

section \<open>Properties of the parameter substitution\<close>



lemma not_nullish_get: "\<not> nullish v \<Longrightarrow> \<exists>w. js_get s v k = Some w"
  by (cases v) simp_all


lemma truthy_not_nullish: "truthy v \<Longrightarrow> \<not> nullish v"
  by (cases v) simp_all

















section \<open>Properties of fetchDynamicValuesSaga\<close>

lemma fo_catch_store:
  "nxt (heap (fst (fo_catch e d \<sigma>))) = nxt (heap \<sigma>)
   \<and> (\<forall>a. a \<noteq> d \<longrightarrow> objs (heap (fst (fo_catch e d \<sigma>))) a = objs (heap \<sigma>) a)
   \<and> (\<exists>es. trace (fst (fo_catch e d \<sigma>)) = trace \<sigma> @ es \<and> (\<forall>x \<in> set es. call_ref x = None))"
  by (simp add: fo_catch_def put_field_def set_field_def emit_def)

lemma fo_start_store:
  "nxt (heap (fst (fo_start hp v d a ds pl cp \<sigma>))) = nxt (heap \<sigma>)
   \<and> (\<forall>b. b \<noteq> d \<longrightarrow> objs (heap (fst (fo_start hp v d a ds pl cp \<sigma>))) b = objs (heap \<sigma>) b)
   \<and> (\<exists>es. trace (fst (fo_start hp v d a ds pl cp \<sigma>)) = trace \<sigma> @ es
         \<and> (\<forall>x \<in> set es. call_ref x = None))"
  by (simp add: fo_start_def fo_catch_def put_field_def set_field_def emit_def Let_def
        split: option.splits)

lemma fo_resume_store:
  assumes "fo_owner d p"
  shows "nxt (heap (fst (fo_resume hp p r \<sigma>))) = nxt (heap \<sigma>)
   \<and> (\<forall>b. b \<noteq> d \<longrightarrow> objs (heap (fst (fo_resume hp p r \<sigma>))) b = objs (heap \<sigma>) b)
   \<and> (\<exists>es. trace (fst (fo_resume hp p r \<sigma>)) = trace \<sigma> @ es
         \<and> (\<forall>x \<in> set es. call_ref x = None))"
proof (cases p)
  case (FoSelectAction L)
  then show ?thesis using assms
    by (cases r) (simp_all add: fo_catch_def put_field_def set_field_def emit_def)
next
  case (FoSelectTree L)
  then show ?thesis using assms
    by (cases r)
       (simp_all add: fo_catch_def put_field_def set_field_def emit_def split: option.splits)
next
  case (FoCallApi L)
  then show ?thesis using assms
    by (cases r)
       (simp_all add: fo_catch_def put_field_def set_field_def emit_def Let_def
          split: option.splits)
next
  case FoReturn
  then show ?thesis by simp
qed

lemma fo_run_store:
  assumes "fo_owner d p"
  shows "nxt (heap (fst (fo_run hp rs (\<sigma>, p)))) = nxt (heap \<sigma>)
   \<and> (\<forall>b. b \<noteq> d \<longrightarrow> objs (heap (fst (fo_run hp rs (\<sigma>, p)))) b = objs (heap \<sigma>) b)"
  using assms
proof (induction rs arbitrary: \<sigma> p)
  case Nil
  then show ?case by simp
next
  case (Cons r rs)
  obtain \<sigma>1 p1 where s: "fo_resume hp p r \<sigma> = (\<sigma>1, p1)" by force
  have o: "fo_owner d p1" using fo_resume_owner [OF Cons.prems, of hp r \<sigma>] s by simp
  from fo_resume_store [OF Cons.prems, of hp r \<sigma>] s Cons.IH [OF o, of \<sigma>1]
  show ?case by simp
qed

lemma framed_same:
  assumes "framed n0 h0 eo h" and "nxt h' = nxt h"
    and "\<And>a. a < n0 \<Longrightarrow> objs h' a = objs h a"
  shows "framed n0 h0 eo h'"
  using assms unfolding framed_def field_def by simp

lemma framed_above:
  assumes "framed n0 h0 eo h" and "nxt h \<le> nxt h'" and "n0 \<le> d"
    and "\<And>a. a \<noteq> d \<Longrightarrow> objs h' a = objs h a"
  shows "framed n0 h0 eo h'"
proof -
  have "\<And>a. a < n0 \<Longrightarrow> objs h' a = objs h a" using assms(3,4) by auto
  then show ?thesis using assms(1,2) unfolding framed_def field_def by simp
qed

lemma framed_assign:
  assumes "framed n0 h0 eo h" and "js_assign h target ''fetchDynamicValues'' (JRef d) = Some h'"
    and "n0 \<le> d" and "\<And>c. target = JRef c \<Longrightarrow> JRef c \<in> snd ` set eo"
  shows "framed n0 h0 eo h' \<and> nxt h' = nxt h"
proof -
  obtain c where t: "target = JRef c" using assms(2) by (cases target) simp_all
  have h': "h' = h\<lparr>objs := (objs h)(c := AList.update ''fetchDynamicValues'' (JRef d) (objs h c))\<rparr>"
    using assms(2) t by simp
  have inT: "JRef c \<in> snd ` set eo" using assms(4) t by simp
  have f: "\<And>a k. field h' a k = (if a = c \<and> k = ''fetchDynamicValues'' then JRef d else field h a k)"
    by (simp add: h' field_def lookup_update)
  have o: "\<And>a. a \<noteq> c \<Longrightarrow> objs h' a = objs h a" by (simp add: h')
  show ?thesis
    using assms(1,3) inT unfolding framed_def f
    by (auto simp: h')
qed

lemma fresh_calls_append:
  "fresh_calls lo hi es \<Longrightarrow> hi \<le> hi' \<Longrightarrow> fresh_calls lo hi' es' \<Longrightarrow> fresh_calls lo hi' (es @ es')"
  unfolding fresh_calls_def by (auto, fastforce)

lemma fresh_calls_none: "\<forall>x \<in> set es. call_ref x = None \<Longrightarrow> fresh_calls lo hi es"
  unfolding fresh_calls_def by auto

lemma frame_inv_step:
  assumes "fa_frame_inv tr0 n0 h0 eo \<sigma>" and "nxt (heap \<sigma>) \<le> nxt (heap \<sigma>')" and "n0 \<le> d"
    and "\<And>a. a \<noteq> d \<Longrightarrow> objs (heap \<sigma>') a = objs (heap \<sigma>) a"
    and "\<exists>es. trace \<sigma>' = trace \<sigma> @ es \<and> fresh_calls n0 (nxt (heap \<sigma>')) es"
  shows "fa_frame_inv tr0 n0 h0 eo \<sigma>'"
proof -
  have f: "framed n0 h0 eo (heap \<sigma>')"
    using framed_above [OF _ assms(2,3,4)] assms(1) by (simp add: fa_frame_inv_def)
  obtain es0 where es0: "trace \<sigma> = tr0 @ es0" "fresh_calls n0 (nxt (heap \<sigma>)) es0"
    using assms(1) by (auto simp: fa_frame_inv_def)
  obtain es where es: "trace \<sigma>' = trace \<sigma> @ es" "fresh_calls n0 (nxt (heap \<sigma>')) es"
    using assms(5) by auto
  have "trace \<sigma>' = tr0 @ (es0 @ es)" using es0 es by simp
  moreover have "fresh_calls n0 (nxt (heap \<sigma>')) (es0 @ es)"
    by (rule fresh_calls_append [OF es0(2) assms(2) es(2)])
  ultimately show ?thesis using f unfolding fa_frame_inv_def by blast
qed

lemma frame_inv_assign:
  assumes "fa_frame_inv tr0 n0 h0 eo \<sigma>"
    and "js_assign (heap \<sigma>) target ''fetchDynamicValues'' (JRef d) = Some h1"
    and "n0 \<le> d" and "\<And>c. target = JRef c \<Longrightarrow> JRef c \<in> snd ` set eo"
  shows "fa_frame_inv tr0 n0 h0 eo (\<sigma>\<lparr>heap := h1\<rparr>) \<and> nxt h1 = nxt (heap \<sigma>)"
proof -
  have "framed n0 h0 eo (heap \<sigma>)" using assms(1) by (simp add: fa_frame_inv_def)
  from framed_assign [OF this assms(2,3,4)] assms(1)
  show ?thesis by (simp add: fa_frame_inv_def)
qed

lemma target_in_output:
  "js_get s (JObj eo) key = Some (JRef c) \<Longrightarrow> JRef c \<in> snd ` set eo"
  by (auto simp: lookup_def split: option.splits dest!: map_of_SomeD intro: image_eqI [where x = "(key, JRef c)"])

lemma frame_loop:
  assumes "fa_evalOutput F = JObj eo" and "fa_frame_inv tr0 n0 h0 eo \<sigma>"
  shows "fa_frame_inv tr0 n0 h0 eo (fst (fa_loop hp F ks \<sigma>))
         \<and> fa_pc_inv n0 eo (fst (fa_loop hp F ks \<sigma>)) (snd (fa_loop hp F ks \<sigma>))"
  using assms(2)
proof (induction ks arbitrary: \<sigma>)
  case Nil
  have "fa_frame_inv tr0 n0 h0 eo
          (emit (Put ''SET_FORM_EVALUATION'' (JObj [(fa_formId F, fa_evalOutput F)])) \<sigma>)"
    by (rule frame_inv_step [OF Nil, of _ n0])
       (auto simp: emit_def fresh_calls_def)
  then show ?case by simp
next
  case (Cons key ks)
  show ?case
  proof (cases "fa_operands (heap \<sigma>) F key")
    case None
    then show ?thesis using Cons.prems by simp
  next
    case (Some t)
    obtain target v fdv where t: "t = (target, v, fdv)" by (cases t) auto
    have tg: "js_get (heap \<sigma>) (JObj eo) key = Some target"
      using Some t assms(1) by (auto simp: fa_operands_def split: bind_splits)
    have tin: "\<And>c. target = JRef c \<Longrightarrow> JRef c \<in> snd ` set eo"
      using tg target_in_output by blast
    obtain h dyn where oa: "object_assign_new (heap \<sigma>) fdv = (h, dyn)" by force
    have dyn: "dyn = nxt (heap \<sigma>)" and nh: "nxt h = Suc (nxt (heap \<sigma>))"
      and oh: "\<And>a. a \<noteq> dyn \<Longrightarrow> objs h a = objs (heap \<sigma>) a"
      using oa by (auto simp: object_assign_new_def)
    have n0: "n0 \<le> dyn" using Cons.prems dyn by (simp add: fa_frame_inv_def framed_def)
    let ?c = "CallFetchDynamicValueSaga v (JRef dyn) (fa_formId F)
                (fa_datasourceId F) (fa_pluginId F) key"
    let ?\<sigma>0 = "emit ?c (\<sigma>\<lparr>heap := h\<rparr>)"
    have i0: "fa_frame_inv tr0 n0 h0 eo ?\<sigma>0"
    proof (rule frame_inv_step [OF Cons.prems _ n0])
      show "nxt (heap \<sigma>) \<le> nxt (heap ?\<sigma>0)" using nh by (simp add: emit_def)
      show "\<And>a. a \<noteq> dyn \<Longrightarrow> objs (heap ?\<sigma>0) a = objs (heap \<sigma>) a"
        using oh by (simp add: emit_def)
      show "\<exists>es. trace ?\<sigma>0 = trace \<sigma> @ es \<and> fresh_calls n0 (nxt (heap ?\<sigma>0)) es"
        using n0 nh dyn by (simp add: emit_def fresh_calls_def)
    qed
    obtain \<sigma>1 p where fs: "fo_start hp v dyn (fa_formId F) (fa_datasourceId F) (fa_pluginId F) key ?\<sigma>0 = (\<sigma>1, p)"
      by force
    note st = fo_start_store [of hp v dyn "fa_formId F" "fa_datasourceId F" "fa_pluginId F" key ?\<sigma>0]
    have n1: "nxt (heap \<sigma>1) = nxt (heap ?\<sigma>0)" using st fs by simp
    have i1: "fa_frame_inv tr0 n0 h0 eo \<sigma>1"
    proof (rule frame_inv_step [OF i0 _ n0])
      show "nxt (heap ?\<sigma>0) \<le> nxt (heap \<sigma>1)" using n1 by simp
      show "\<And>a. a \<noteq> dyn \<Longrightarrow> objs (heap \<sigma>1) a = objs (heap ?\<sigma>0) a" using st fs by simp
      show "\<exists>es. trace \<sigma>1 = trace ?\<sigma>0 @ es \<and> fresh_calls n0 (nxt (heap \<sigma>1)) es"
        using st fs fresh_calls_none by fastforce
    qed
    have own: "fo_owner dyn p"
      using fo_start_owner [of dyn hp v "fa_formId F" "fa_datasourceId F" "fa_pluginId F" key ?\<sigma>0] fs
      by simp
    have lt: "dyn < nxt (heap \<sigma>1)" using n1 nh dyn by (simp add: emit_def)
    show ?thesis
    proof (cases "p = FoReturn")
      case False
      then show ?thesis using Some t oa fs i1 assms(1) n0 lt own tin by simp
    next
      case True
      show ?thesis
      proof (cases "js_assign (heap \<sigma>1) target ''fetchDynamicValues'' (JRef dyn)")
        case None
        then show ?thesis using \<open>fa_operands (heap \<sigma>) F key = Some t\<close> t oa fs i1 True by simp
      next
        case (Some h1)
        from frame_inv_assign [OF i1 Some n0 tin]
        have "fa_frame_inv tr0 n0 h0 eo (\<sigma>1\<lparr>heap := h1\<rparr>)" by simp
        from Cons.IH [OF this] show ?thesis
          using \<open>fa_operands (heap \<sigma>) F key = Some t\<close> t oa fs True Some by simp
      qed
    qed
  qed
qed

lemma frame_resume:
  assumes "fa_frame_inv tr0 n0 h0 eo \<sigma>" and "fa_pc_inv n0 eo \<sigma> p"
  shows "fa_frame_inv tr0 n0 h0 eo (fst (fa_resume hp p r \<sigma>))
         \<and> fa_pc_inv n0 eo (fst (fa_resume hp p r \<sigma>)) (snd (fa_resume hp p r \<sigma>))"
proof (cases p)
  case (FaFetching F ks target dyn q)
  have F: "fa_evalOutput F = JObj eo" and n0: "n0 \<le> dyn" and lt: "dyn < nxt (heap \<sigma>)"
    and own: "fo_owner dyn q" and tin: "\<And>c. target = JRef c \<Longrightarrow> JRef c \<in> snd ` set eo"
    using assms(2) FaFetching by auto
  obtain \<sigma>1 p1 where fr: "fo_resume hp q r \<sigma> = (\<sigma>1, p1)" by force
  note st = fo_resume_store [OF own, of hp r \<sigma>]
  have n1: "nxt (heap \<sigma>1) = nxt (heap \<sigma>)" using st fr by simp
  have i1: "fa_frame_inv tr0 n0 h0 eo \<sigma>1"
  proof (rule frame_inv_step [OF assms(1) _ n0])
    show "nxt (heap \<sigma>) \<le> nxt (heap \<sigma>1)" using n1 by simp
    show "\<And>a. a \<noteq> dyn \<Longrightarrow> objs (heap \<sigma>1) a = objs (heap \<sigma>) a" using st fr by simp
    show "\<exists>es. trace \<sigma>1 = trace \<sigma> @ es \<and> fresh_calls n0 (nxt (heap \<sigma>1)) es"
      using st fr fresh_calls_none by fastforce
  qed
  have own1: "fo_owner dyn p1" using fo_resume_owner [OF own, of hp r \<sigma>] fr by simp
  show ?thesis
  proof (cases "p1 = FoReturn")
    case False
    then show ?thesis using FaFetching fr i1 F n0 lt n1 own1 tin by simp
  next
    case True
    show ?thesis
    proof (cases "js_assign (heap \<sigma>1) target ''fetchDynamicValues'' (JRef dyn)")
      case None
      then show ?thesis using FaFetching fr i1 True by simp
    next
      case (Some h1)
      from frame_inv_assign [OF i1 Some n0 tin]
      have "fa_frame_inv tr0 n0 h0 eo (\<sigma>1\<lparr>heap := h1\<rparr>)" by simp
      from frame_loop [OF F this] show ?thesis using FaFetching fr True Some by simp
    qed
  qed
next
  case (FaPut F)
  then show ?thesis using assms by (cases r) simp_all
next
  case FaReturn
  then show ?thesis using assms by simp
next
  case (FaThrown e)
  then show ?thesis using assms by simp
qed

lemma frame_run:
  assumes "fa_frame_inv tr0 n0 h0 eo \<sigma>" and "fa_pc_inv n0 eo \<sigma> p"
  shows "fa_frame_inv tr0 n0 h0 eo (fst (fa_run hp rs (\<sigma>, p)))"
  using assms
proof (induction rs arbitrary: \<sigma> p)
  case Nil
  then show ?case by simp
next
  case (Cons r rs)
  show ?case
  proof (cases "fa_done p")
    case True
    then show ?thesis using Cons.prems by simp
  next
    case False
    obtain \<sigma>1 p1 where s: "fa_resume hp p r \<sigma> = (\<sigma>1, p1)" by force
    from frame_resume [OF Cons.prems, of hp r] s
    have "fa_frame_inv tr0 n0 h0 eo \<sigma>1" "fa_pc_inv n0 eo \<sigma>1 p1" by simp_all
    from Cons.IH [OF this] show ?thesis using False s by simp
  qed
qed

lemma frame_inv_init: "fa_frame_inv (trace \<sigma>) (nxt (heap \<sigma>)) (heap \<sigma>) eo \<sigma>"
  by (simp add: fa_frame_inv_def framed_def fresh_calls_def)

lemma frame_saga:
  assumes "evalOutput = JObj eo"
  shows "fa_frame_inv (trace \<sigma>) (nxt (heap \<sigma>)) (heap \<sigma>) eo
           (fst (fetchDynamicValuesSaga hp q fid evalOutput ds pl rs \<sigma>))"
proof -
  let ?F = "\<lparr>fa_queue = q, fa_formId = fid, fa_evalOutput = evalOutput,
             fa_datasourceId = ds, fa_pluginId = pl\<rparr>"
  have F: "fa_evalOutput ?F = JObj eo" using assms by simp
  obtain \<sigma>0 p0 where s: "fa_start hp ?F \<sigma> = (\<sigma>0, p0)" by force
  have "fa_frame_inv (trace \<sigma>) (nxt (heap \<sigma>)) (heap \<sigma>) eo \<sigma>0
        \<and> fa_pc_inv (nxt (heap \<sigma>)) eo \<sigma>0 p0"
  proof (cases "js_keys (heap \<sigma>) q")
    case None
    then show ?thesis using s frame_inv_init by (auto simp: fa_start_def)
  next
    case (Some ks)
    from frame_loop [OF F frame_inv_init, where hp = hp and ks = ks and \<sigma> = \<sigma>] s Some
    show ?thesis by (simp add: fa_start_def)
  qed
  then have "fa_frame_inv (trace \<sigma>) (nxt (heap \<sigma>)) (heap \<sigma>) eo (fst (fa_run hp rs (\<sigma>0, p0)))"
    using frame_run by blast
  then show ?thesis using s by (simp add: fetchDynamicValuesSaga_def)
qed

text \<open>
  C9. \<^verbatim>\<open>fetchDynamicValueSaga\<close> changes no object of the store but the one it is handed.
  \<^verbatim>\<open>fetchDynamicValuesSaga\<close>, on an evaluation output given as a literal mapping,
  hands each call an object allocated for it (a new address); it leaves every object
  that existed before and is not an entry of the evaluation output as it was, so the
  values of \<^verbatim>\<open>fetchDynamicValues\<close> that were there before are never written to; and of
  the objects that existed before it changes at most the property
  \<^verbatim>\<open>fetchDynamicValues\<close>, which it replaces by a reference to a new object.
\<close>

theorem originals_are_not_mutated:
  "(\<forall>b. b \<noteq> d \<longrightarrow>
       objs (heap (fst (fetchDynamicValueSaga hp v d aid ds pl cp rs \<sigma>))) b = objs (heap \<sigma>) b)
   \<and> (\<forall>\<sigma>'. evalOutput = JObj eo
          \<and> \<sigma>' = fst (fetchDynamicValuesSaga hp q fid evalOutput ds pl rs \<sigma>) \<longrightarrow>
        (\<forall>a < nxt (heap \<sigma>). JRef a \<notin> snd ` set eo \<longrightarrow> objs (heap \<sigma>') a = objs (heap \<sigma>) a)
      \<and> (\<forall>c < nxt (heap \<sigma>). \<forall>f. f \<noteq> ''fetchDynamicValues'' \<longrightarrow>
            field (heap \<sigma>') c f = field (heap \<sigma>) c f)
      \<and> (\<forall>c < nxt (heap \<sigma>).
            field (heap \<sigma>') c ''fetchDynamicValues'' = field (heap \<sigma>) c ''fetchDynamicValues''
            \<or> (\<exists>n. nxt (heap \<sigma>) \<le> n \<and> field (heap \<sigma>') c ''fetchDynamicValues'' = JRef n))
      \<and> (\<exists>es. trace \<sigma>' = trace \<sigma> @ es
            \<and> (\<forall>e \<in> set es. \<forall>x. call_ref e = Some x \<longrightarrow>
                  (\<exists>n. nxt (heap \<sigma>) \<le> n \<and> n < nxt (heap \<sigma>') \<and> x = JRef n))))"
proof (rule conjI)
  show "\<forall>b. b \<noteq> d \<longrightarrow>
       objs (heap (fst (fetchDynamicValueSaga hp v d aid ds pl cp rs \<sigma>))) b = objs (heap \<sigma>) b"
  proof (intro allI impI)
    fix b assume "b \<noteq> d"
    obtain \<sigma>0 p0 where s: "fo_start hp v d aid ds pl cp \<sigma> = (\<sigma>0, p0)" by force
    have o: "fo_owner d p0" using fo_start_owner [of d hp v aid ds pl cp \<sigma>] s by simp
    from fo_run_store [OF o, of hp rs \<sigma>0] fo_start_store [of hp v d aid ds pl cp \<sigma>] s \<open>b \<noteq> d\<close>
    show "objs (heap (fst (fetchDynamicValueSaga hp v d aid ds pl cp rs \<sigma>))) b = objs (heap \<sigma>) b"
      by (simp add: fetchDynamicValueSaga_def)
  qed
next
  show "\<forall>\<sigma>'. evalOutput = JObj eo
          \<and> \<sigma>' = fst (fetchDynamicValuesSaga hp q fid evalOutput ds pl rs \<sigma>) \<longrightarrow>
        (\<forall>a < nxt (heap \<sigma>). JRef a \<notin> snd ` set eo \<longrightarrow> objs (heap \<sigma>') a = objs (heap \<sigma>) a)
      \<and> (\<forall>c < nxt (heap \<sigma>). \<forall>f. f \<noteq> ''fetchDynamicValues'' \<longrightarrow>
            field (heap \<sigma>') c f = field (heap \<sigma>) c f)
      \<and> (\<forall>c < nxt (heap \<sigma>).
            field (heap \<sigma>') c ''fetchDynamicValues'' = field (heap \<sigma>) c ''fetchDynamicValues''
            \<or> (\<exists>n. nxt (heap \<sigma>) \<le> n \<and> field (heap \<sigma>') c ''fetchDynamicValues'' = JRef n))
      \<and> (\<exists>es. trace \<sigma>' = trace \<sigma> @ es
            \<and> (\<forall>e \<in> set es. \<forall>x. call_ref e = Some x \<longrightarrow>
                  (\<exists>n. nxt (heap \<sigma>) \<le> n \<and> n < nxt (heap \<sigma>') \<and> x = JRef n)))"
  proof (intro allI impI)
    fix \<sigma>'
    assume h: "evalOutput = JObj eo \<and> \<sigma>' = fst (fetchDynamicValuesSaga hp q fid evalOutput ds pl rs \<sigma>)"
    then have inv: "fa_frame_inv (trace \<sigma>) (nxt (heap \<sigma>)) (heap \<sigma>) eo \<sigma>'"
      using frame_saga by simp
    then show "(\<forall>a < nxt (heap \<sigma>). JRef a \<notin> snd ` set eo \<longrightarrow> objs (heap \<sigma>') a = objs (heap \<sigma>) a)
      \<and> (\<forall>c < nxt (heap \<sigma>). \<forall>f. f \<noteq> ''fetchDynamicValues'' \<longrightarrow>
            field (heap \<sigma>') c f = field (heap \<sigma>) c f)
      \<and> (\<forall>c < nxt (heap \<sigma>).
            field (heap \<sigma>') c ''fetchDynamicValues'' = field (heap \<sigma>) c ''fetchDynamicValues''
            \<or> (\<exists>n. nxt (heap \<sigma>) \<le> n \<and> field (heap \<sigma>') c ''fetchDynamicValues'' = JRef n))
      \<and> (\<exists>es. trace \<sigma>' = trace \<sigma> @ es
            \<and> (\<forall>e \<in> set es. \<forall>x. call_ref e = Some x \<longrightarrow>
                  (\<exists>n. nxt (heap \<sigma>) \<le> n \<and> n < nxt (heap \<sigma>') \<and> x = JRef n)))"
      unfolding fa_frame_inv_def framed_def fresh_calls_def by blast
  qed
qed

lemmas fa_simps = fetchDynamicValuesSaga_def fa_start_def fa_operands_def js_keys_def
  object_assign_new_def demo_evalOutput_def

theorem originals_are_not_mutated_witness:
  "(1::nat) \<noteq> 2
   \<and> objs (heap (fst (fetchDynamicValueSaga demo_helpers (JRef 0) 2 ''f'' ''d'' [] ''A''
        [Ret demo_entity, Ret demo_tree, Ret demo_api_response] (idle demo_store)))) 1
       = objs demo_store 1
   \<and> demo_evalOutput = JObj [(''A'', JRef 0)]
   \<and> (1::nat) < nxt (heap (idle demo_store))
   \<and> JRef 1 \<notin> snd ` set [(''A'', JRef 0)]
   \<and> objs (heap (fst (fetchDynamicValuesSaga demo_helpers demo_evalOutput ''f'' demo_evalOutput
        ''d'' [] [Ret demo_entity, Ret demo_tree, Ret demo_api_response, Ret JUndefined]
        (idle demo_store)))) 1 = objs demo_store 1
   \<and> field (heap (fst (fetchDynamicValuesSaga demo_helpers demo_evalOutput ''f'' demo_evalOutput
        ''d'' [] [Ret demo_entity, Ret demo_tree, Ret demo_api_response, Ret JUndefined]
        (idle demo_store)))) 0 ''fetchDynamicValues'' = JRef 2
   \<and> field (heap (fst (fetchDynamicValuesSaga demo_helpers demo_evalOutput ''f'' demo_evalOutput
        ''d'' [] [Ret demo_entity, Ret demo_tree, Ret demo_api_response, Ret JUndefined]
        (idle demo_store)))) 2 ''data'' = JArr [JNum 1, JNum 2]"
proof -
  let ?one = "fetchDynamicValueSaga demo_helpers (JRef 0) 2 ''f'' ''d'' [] ''A''
        [Ret demo_entity, Ret demo_tree, Ret demo_api_response] (idle demo_store)"
  let ?all = "fetchDynamicValuesSaga demo_helpers demo_evalOutput ''f'' demo_evalOutput
        ''d'' [] [Ret demo_entity, Ret demo_tree, Ret demo_api_response, Ret JUndefined]
        (idle demo_store)"
  have neq: "(1::nat) \<noteq> 2" by simp
  have e: "demo_evalOutput = JObj [(''A'', JRef 0)]" by (simp add: demo_evalOutput_def)
  have n: "(1::nat) < nxt (heap (idle demo_store))" by (simp add: idle_def demo_store_def)
  have m: "JRef 1 \<notin> snd ` set [(''A'', JRef 0)]" by simp
  have h0: "objs (heap (idle demo_store)) 1 = objs demo_store 1" by (simp add: idle_def)
  have a: "objs (heap (fst ?one)) 1 = objs demo_store 1"
    using originals_are_not_mutated [THEN conjunct1, rule_format, where b = 1 and d = 2 and hp = demo_helpers
        and v = "JRef 0" and aid = "''f''" and ds = "''d''" and pl = "[]" and cp = "''A''"
        and rs = "[Ret demo_entity, Ret demo_tree, Ret demo_api_response]"
        and \<sigma> = "idle demo_store", OF neq] h0
    by simp
  have b: "objs (heap (fst ?all)) 1 = objs demo_store 1"
    using originals_are_not_mutated [THEN conjunct2, rule_format, THEN conjunct1, rule_format,
        where evalOutput = demo_evalOutput and eo = "[(''A'', JRef 0)]"
        and hp = demo_helpers and q = demo_evalOutput and fid = "''f''" and ds = "''d''"
        and pl = "[]" and rs = "[Ret demo_entity, Ret demo_tree, Ret demo_api_response, Ret JUndefined]"
        and \<sigma> = "idle demo_store" and a = 1, OF conjI [OF e refl] n m] h0
    by simp
  have c: "field (heap (fst ?all)) 0 ''fetchDynamicValues'' = JRef 2"
    by code_simp
  have d: "field (heap (fst ?all)) 2 ''data'' = JArr [JNum 1, JNum 2]"
    by code_simp
  show ?thesis using a b c d e n m by simp
qed

section \<open>The loop of fetchDynamicValuesSaga\<close>

lemma fetch_calls_append: "fetch_calls (xs @ ys) = fetch_calls xs @ fetch_calls ys"
  by (induction xs rule: fetch_calls.induct) simp_all

lemma fetch_calls_quiet: "\<forall>e \<in> set es. quiet e \<Longrightarrow> fetch_calls es = []"
  by (induction es rule: fetch_calls.induct) simp_all

lemma puts_quiet: "\<forall>e \<in> set es. quiet e \<Longrightarrow> filter is_put es = []"
proof (induction es)
  case Nil
  then show ?case by simp
next
  case (Cons e es)
  then show ?case by (cases e) simp_all
qed

lemma fo_catch_quiet:
  "\<exists>es. trace (fst (fo_catch e d \<sigma>)) = trace \<sigma> @ es \<and> (\<forall>x \<in> set es. quiet x)"
  by (simp add: fo_catch_def put_field_def emit_def)

lemma fo_start_quiet:
  "\<exists>es. trace (fst (fo_start hp v d a ds pl cp \<sigma>)) = trace \<sigma> @ es \<and> (\<forall>x \<in> set es. quiet x)"
  by (simp add: fo_start_def fo_catch_def put_field_def emit_def Let_def split: option.splits)

lemma fo_resume_quiet:
  "\<exists>es. trace (fst (fo_resume hp p r \<sigma>)) = trace \<sigma> @ es \<and> (\<forall>x \<in> set es. quiet x)"
proof (cases p)
  case (FoSelectAction L)
  then show ?thesis by (cases r) (simp_all add: fo_catch_def put_field_def emit_def)
next
  case (FoSelectTree L)
  then show ?thesis
    by (cases r) (simp_all add: fo_catch_def put_field_def emit_def split: option.splits)
next
  case (FoCallApi L)
  then show ?thesis
    by (cases r) (simp_all add: fo_catch_def put_field_def emit_def Let_def split: option.splits)
next
  case FoReturn
  then show ?thesis by simp
qed

lemma handed_snoc: "handed n0 (ks @ [k]) = handed n0 ks @ [(k, JRef (n0 + length ks))]"
  by (simp add: handed_def enumerate_append_eq)

lemma assigned_kept:
  assumes "assigned eo n0 ks h" and "\<forall>k \<in> set ks. \<exists>c < n0. lookup eo k = JRef c"
    and "\<And>c. c < n0 \<Longrightarrow> field h' c ''fetchDynamicValues'' = field h c ''fetchDynamicValues''"
  shows "assigned eo n0 ks h'"
  unfolding assigned_def
proof (intro ballI, clarify)
  fix a k c
  assume m: "(a, k) \<in> set (enumerate n0 ks)" and l: "lookup eo k = JRef c"
  have "k \<in> set ks" using m by (auto simp: in_set_enumerate_eq)
  then have "c < n0" using assms(2) l by auto
  then show "field h' c ''fetchDynamicValues'' = JRef a"
    using assms(1,3) m l by (auto simp: assigned_def)
qed

lemma assigned_snoc:
  assumes "assigned eo n0 ks h" and "lookup eo key = JRef c"
    and "distinct (map (lookup eo) (ks @ [key]))"
    and "js_assign h (JRef c) ''fetchDynamicValues'' (JRef (n0 + length ks)) = Some h'"
  shows "assigned eo n0 (ks @ [key]) h' \<and> nxt h' = nxt h"
proof -
  have f: "\<And>a k. field h' a k = (if a = c \<and> k = ''fetchDynamicValues''
                                   then JRef (n0 + length ks) else field h a k)"
    using assms(4) by (auto simp: field_def lookup_update)
  have "\<And>a k c'. (a, k) \<in> set (enumerate n0 ks) \<Longrightarrow> lookup eo k = JRef c' \<Longrightarrow> c' \<noteq> c"
  proof
    fix a k c'
    assume m: "(a, k) \<in> set (enumerate n0 ks)" and l: "lookup eo k = JRef c'" and e: "c' = c"
    have "k \<in> set ks" using m by (auto simp: in_set_enumerate_eq)
    then have "lookup eo k \<in> set (map (lookup eo) ks)" by simp
    moreover have "lookup eo key \<notin> set (map (lookup eo) ks)" using assms(3) by simp
    ultimately show False using l e assms(2) by simp
  qed
  then have old: "\<forall>(a, k) \<in> set (enumerate n0 ks). \<forall>c'. lookup eo k = JRef c' \<longrightarrow>
               field h' c' ''fetchDynamicValues'' = JRef a"
    using assms(1) unfolding assigned_def f by fastforce
  have "assigned eo n0 (ks @ [key]) h'"
    unfolding assigned_def using old assms(2) f
    by (auto simp: enumerate_append_eq)
  moreover have "nxt h' = nxt h" using assms(4) by auto
  ultimately show ?thesis by simp
qed

lemma field_same_objs: "objs h' c = objs h c \<Longrightarrow> field h' c k = field h c k"
  by (simp add: field_def)

text \<open>A call that has returned is assigned, and the loop is at its head again.\<close>

lemma return_head:
  assumes pre: "fa_pre n0 eo K F" and K: "K = seen @ key # ks" and c: "lookup eo key = JRef c"
    and tr: "\<exists>es. trace \<sigma> = tr0 @ es \<and> fetch_calls es = handed n0 (seen @ [key])
               \<and> filter is_put es = []"
    and nx: "nxt (heap \<sigma>) = Suc (n0 + length seen)"
    and asg: "assigned eo n0 seen (heap \<sigma>)"
  shows "\<exists>h1. js_assign (heap \<sigma>) (JRef c) ''fetchDynamicValues'' (JRef (n0 + length seen)) = Some h1
           \<and> fa_head tr0 n0 eo (seen @ [key]) (\<sigma>\<lparr>heap := h1\<rparr>)"
proof -
  obtain h1 where h1: "js_assign (heap \<sigma>) (JRef c) ''fetchDynamicValues'' (JRef (n0 + length seen)) = Some h1"
    by simp
  have d: "distinct (map (lookup eo) (seen @ [key]))"
    using pre K by (simp add: fa_pre_def)
  from assigned_snoc [OF asg c d h1]
  have "assigned eo n0 (seen @ [key]) h1" and "nxt h1 = nxt (heap \<sigma>)" by simp_all
  then have "fa_head tr0 n0 eo (seen @ [key]) (\<sigma>\<lparr>heap := h1\<rparr>)"
    using tr nx by (simp add: fa_head_def)
  then show ?thesis using h1 by blast
qed

text \<open>A call in progress keeps the invariant of the suspended loop.\<close>

lemma call_kept:
  assumes pre: "fa_pre n0 eo K F" and K: "K = seen @ key # ks"
    and tr: "\<exists>es. trace \<sigma> = tr0 @ es \<and> fetch_calls es = handed n0 (seen @ [key])
               \<and> filter is_put es = []"
    and asg: "assigned eo n0 seen (heap \<sigma>)"
    and step: "nxt (heap \<sigma>') = nxt (heap \<sigma>)"
      "\<And>b. b \<noteq> n0 + length seen \<Longrightarrow> objs (heap \<sigma>') b = objs (heap \<sigma>) b"
      "\<exists>es. trace \<sigma>' = trace \<sigma> @ es \<and> (\<forall>x \<in> set es. quiet x)"
  shows "(\<exists>es. trace \<sigma>' = tr0 @ es \<and> fetch_calls es = handed n0 (seen @ [key])
               \<and> filter is_put es = [])
         \<and> assigned eo n0 seen (heap \<sigma>')"
proof -
  obtain es where es: "trace \<sigma> = tr0 @ es" "fetch_calls es = handed n0 (seen @ [key])"
      "filter is_put es = []" using tr by blast
  obtain es' where es': "trace \<sigma>' = trace \<sigma> @ es'" "\<forall>x \<in> set es'. quiet x"
    using step(3) by blast
  have t: "trace \<sigma>' = tr0 @ (es @ es')" using es es' by simp
  have f: "fetch_calls (es @ es') = handed n0 (seen @ [key])"
    using es(2) fetch_calls_quiet [OF es'(2)] by (simp add: fetch_calls_append)
  have p: "filter is_put (es @ es') = []" using es(3) puts_quiet [OF es'(2)] by simp
  have tg: "\<forall>k \<in> set seen. \<exists>c < n0. lookup eo k = JRef c"
    using pre K by (simp add: fa_pre_def)
  have "\<And>c. c < n0 \<Longrightarrow> field (heap \<sigma>') c ''fetchDynamicValues'' = field (heap \<sigma>) c ''fetchDynamicValues''"
    using step(2) by (simp add: field_def)
  from assigned_kept [OF asg tg this] t f p show ?thesis by blast
qed

lemma head_loop:
  assumes pre: "fa_pre n0 eo K F"
  shows "K = seen @ ks \<Longrightarrow> fa_head tr0 n0 eo seen \<sigma> \<Longrightarrow>
         fa_inv tr0 n0 eo K F (fst (fa_loop hp F ks \<sigma>)) (snd (fa_loop hp F ks \<sigma>))"
proof (induction ks arbitrary: seen \<sigma>)
  case Nil
  obtain es where es: "trace \<sigma> = tr0 @ es" "fetch_calls es = handed n0 seen"
      "filter is_put es = []" using Nil.prems(2) by (auto simp: fa_head_def)
  let ?put = "Put ''SET_FORM_EVALUATION'' (JObj [(fa_formId F, fa_evalOutput F)])"
  have "trace (emit ?put \<sigma>) = tr0 @ es @ [?put]" using es(1) by (simp add: emit_def)
  moreover have "fetch_calls es = handed n0 K" using es(2) Nil.prems(1) by simp
  moreover have "assigned eo n0 K (heap (emit ?put \<sigma>))"
    using Nil.prems by (simp add: fa_head_def emit_def)
  ultimately have "fa_finished tr0 n0 eo K F (emit ?put \<sigma>)"
    using es(3) unfolding fa_finished_def by blast
  then show ?case by simp
next
  case (Cons key ks)
  have eoF: "fa_evalOutput F = JObj eo" and qn: "\<not> nullish (fa_queue F)"
    using pre by (simp_all add: fa_pre_def)
  have "key \<in> set K" using Cons.prems(1) by simp
  then obtain c where c: "c < n0" "lookup eo key = JRef c" using pre by (auto simp: fa_pre_def)
  obtain v where v: "js_get (heap \<sigma>) (fa_queue F) key = Some v"
    using not_nullish_get [OF qn] by blast
  let ?fdv = "lookup (objs (heap \<sigma>) c) ''fetchDynamicValues''"
  have ops: "fa_operands (heap \<sigma>) F key = Some (JRef c, v, ?fdv)"
    using c v eoF by (simp add: fa_operands_def)
  let ?dyn = "n0 + length seen"
  obtain h where oa: "object_assign_new (heap \<sigma>) ?fdv = (h, ?dyn)"
    and nh: "nxt h = Suc ?dyn" and oh: "\<And>a. a \<noteq> ?dyn \<Longrightarrow> objs h a = objs (heap \<sigma>) a"
    using Cons.prems(2) by (auto simp: object_assign_new_def fa_head_def)
  let ?c = "CallFetchDynamicValueSaga v (JRef ?dyn) (fa_formId F)
                (fa_datasourceId F) (fa_pluginId F) key"
  let ?\<sigma>0 = "emit ?c (\<sigma>\<lparr>heap := h\<rparr>)"
  obtain es where es: "trace \<sigma> = tr0 @ es" "fetch_calls es = handed n0 seen"
      "filter is_put es = []" using Cons.prems(2) by (auto simp: fa_head_def)
  have tr0: "\<exists>es. trace ?\<sigma>0 = tr0 @ es \<and> fetch_calls es = handed n0 (seen @ [key])
               \<and> filter is_put es = []"
  proof (intro exI conjI)
    show "trace ?\<sigma>0 = tr0 @ (es @ [?c])" using es(1) by (simp add: emit_def)
    show "fetch_calls (es @ [?c]) = handed n0 (seen @ [key])"
      using es(2) by (simp add: fetch_calls_append handed_snoc)
    show "filter is_put (es @ [?c]) = []" using es(3) by simp
  qed
  have tg: "\<forall>k \<in> set seen. \<exists>c < n0. lookup eo k = JRef c"
    using pre Cons.prems(1) by (simp add: fa_pre_def)
  have a0: "assigned eo n0 seen (heap ?\<sigma>0)"
  proof (rule assigned_kept [OF _ tg])
    show "assigned eo n0 seen (heap \<sigma>)" using Cons.prems(2) by (simp add: fa_head_def)
    show "\<And>c. c < n0 \<Longrightarrow> field (heap ?\<sigma>0) c ''fetchDynamicValues'' = field (heap \<sigma>) c ''fetchDynamicValues''"
      using oh by (simp add: emit_def field_def)
  qed
  have n0': "nxt (heap ?\<sigma>0) = Suc ?dyn" using nh by (simp add: emit_def)
  obtain \<sigma>1 p where fs: "fo_start hp v ?dyn (fa_formId F) (fa_datasourceId F) (fa_pluginId F) key ?\<sigma>0 = (\<sigma>1, p)"
    by force
  note st = fo_start_store [of hp v ?dyn "fa_formId F" "fa_datasourceId F" "fa_pluginId F" key ?\<sigma>0]
  note qt = fo_start_quiet [of hp v ?dyn "fa_formId F" "fa_datasourceId F" "fa_pluginId F" key ?\<sigma>0]
  have k1: "(\<exists>es. trace \<sigma>1 = tr0 @ es \<and> fetch_calls es = handed n0 (seen @ [key])
               \<and> filter is_put es = [])
         \<and> assigned eo n0 seen (heap \<sigma>1)"
  proof (rule call_kept [OF pre Cons.prems(1) tr0 a0])
    show "nxt (heap \<sigma>1) = nxt (heap ?\<sigma>0)" using st fs by simp
    show "\<And>b. b \<noteq> ?dyn \<Longrightarrow> objs (heap \<sigma>1) b = objs (heap ?\<sigma>0) b" using st fs by simp
    show "\<exists>es. trace \<sigma>1 = trace ?\<sigma>0 @ es \<and> (\<forall>x \<in> set es. quiet x)" using qt fs by simp
  qed
  have n1: "nxt (heap \<sigma>1) = Suc ?dyn" using st fs n0' by simp
  have own: "fo_owner ?dyn p"
    using fo_start_owner [of ?dyn hp v "fa_formId F" "fa_datasourceId F" "fa_pluginId F" key ?\<sigma>0] fs
    by simp
  have unfold: "fa_loop hp F (key # ks) \<sigma> =
      (if p = FoReturn then
         (case js_assign (heap \<sigma>1) (JRef c) ''fetchDynamicValues'' (JRef ?dyn) of
            None \<Rightarrow> (\<sigma>1, FaThrown TypeError)
          | Some h1 \<Rightarrow> fa_loop hp F ks (\<sigma>1\<lparr>heap := h1\<rparr>))
       else (\<sigma>1, FaFetching F ks (JRef c) ?dyn p))"
    using ops oa fs by simp
  show ?case
  proof (cases "p = FoReturn")
    case False
    have "fa_inv tr0 n0 eo K F \<sigma>1 (FaFetching F ks (JRef c) ?dyn p)"
      unfolding fa_inv.simps using Cons.prems(1) c(2) own k1 n1 by blast
    then show ?thesis using unfold False by simp
  next
    case True
    from return_head [OF pre Cons.prems(1) c(2) conjunct1 [OF k1] n1 conjunct2 [OF k1]]
    obtain h1 where h1: "js_assign (heap \<sigma>1) (JRef c) ''fetchDynamicValues'' (JRef ?dyn) = Some h1"
      and hd: "fa_head tr0 n0 eo (seen @ [key]) (\<sigma>1\<lparr>heap := h1\<rparr>)" by blast
    have "K = (seen @ [key]) @ ks" using Cons.prems(1) by simp
    from Cons.IH [OF this hd] show ?thesis using unfold True h1 by simp
  qed
qed

lemma inv_resume:
  assumes pre: "fa_pre n0 eo K F" and inv: "fa_inv tr0 n0 eo K F \<sigma> p"
  shows "fa_inv tr0 n0 eo K F (fst (fa_resume hp p r \<sigma>)) (snd (fa_resume hp p r \<sigma>))"
proof (cases p)
  case (FaFetching F' ks target dyn q)
  from inv FaFetching have "fa_inv tr0 n0 eo K F \<sigma> (FaFetching F' ks target dyn q)" by simp
  then obtain seen key c where
    F': "F' = F" and K: "K = seen @ key # ks" and t: "target = JRef c" and c: "lookup eo key = JRef c"
    and dyn: "dyn = n0 + length seen" and own: "fo_owner dyn q"
    and tr: "\<exists>es. trace \<sigma> = tr0 @ es \<and> fetch_calls es = handed n0 (seen @ [key])
               \<and> filter is_put es = []"
    and nx: "nxt (heap \<sigma>) = Suc (n0 + length seen)"
    and asg: "assigned eo n0 seen (heap \<sigma>)"
    unfolding fa_inv.simps by blast
  obtain \<sigma>1 p1 where fr: "fo_resume hp q r \<sigma> = (\<sigma>1, p1)" by force
  note st = fo_resume_store [OF own, of hp r \<sigma>]
  note qt = fo_resume_quiet [of hp q r \<sigma>]
  have k1: "(\<exists>es. trace \<sigma>1 = tr0 @ es \<and> fetch_calls es = handed n0 (seen @ [key])
               \<and> filter is_put es = [])
         \<and> assigned eo n0 seen (heap \<sigma>1)"
  proof (rule call_kept [OF pre K tr asg])
    show "nxt (heap \<sigma>1) = nxt (heap \<sigma>)" using st fr by simp
    show "\<And>b. b \<noteq> n0 + length seen \<Longrightarrow> objs (heap \<sigma>1) b = objs (heap \<sigma>) b"
      using st fr dyn by simp
    show "\<exists>es. trace \<sigma>1 = trace \<sigma> @ es \<and> (\<forall>x \<in> set es. quiet x)" using qt fr by simp
  qed
  have n1: "nxt (heap \<sigma>1) = Suc (n0 + length seen)" using st fr nx by simp
  have own1: "fo_owner dyn p1" using fo_resume_owner [OF own, of hp r \<sigma>] fr by simp
  show ?thesis
  proof (cases "p1 = FoReturn")
    case False
    have "fa_inv tr0 n0 eo K F \<sigma>1 (FaFetching F ks (JRef c) dyn p1)"
      unfolding fa_inv.simps using K c dyn own1 k1 n1 by blast
    then show ?thesis using FaFetching fr False F' t by simp
  next
    case True
    from return_head [OF pre K c conjunct1 [OF k1] n1 conjunct2 [OF k1]]
    obtain h1 where h1: "js_assign (heap \<sigma>1) (JRef c) ''fetchDynamicValues'' (JRef (n0 + length seen)) = Some h1"
      and hd: "fa_head tr0 n0 eo (seen @ [key]) (\<sigma>1\<lparr>heap := h1\<rparr>)" by blast
    have "K = (seen @ [key]) @ ks" using K by simp
    from head_loop [OF pre this hd, of hp] show ?thesis
      using FaFetching fr True h1 F' t dyn by simp
  qed
next
  case (FaPut F')
  then show ?thesis using inv by (cases r) simp_all
next
  case FaReturn
  then show ?thesis using inv by simp
next
  case (FaThrown e)
  then show ?thesis using inv by simp
qed

lemma inv_run:
  assumes pre: "fa_pre n0 eo K F"
  shows "fa_inv tr0 n0 eo K F \<sigma> p \<Longrightarrow>
         fa_inv tr0 n0 eo K F (fst (fa_run hp rs (\<sigma>, p))) (snd (fa_run hp rs (\<sigma>, p)))"
proof (induction rs arbitrary: \<sigma> p)
  case Nil
  then show ?case by simp
next
  case (Cons r rs)
  show ?case
  proof (cases "fa_done p")
    case True
    then show ?thesis using Cons.prems by simp
  next
    case False
    obtain \<sigma>1 p1 where s: "fa_resume hp p r \<sigma> = (\<sigma>1, p1)" by force
    from inv_resume [OF pre Cons.prems, of hp r] s have "fa_inv tr0 n0 eo K F \<sigma>1 p1" by simp
    from Cons.IH [OF this] show ?thesis using False s by simp
  qed
qed

lemma fa_loop_left_live:
  "fa_left (snd (fa_loop hp F ks \<sigma>)) \<le> 3 * length ks + 1 \<and> fa_live (snd (fa_loop hp F ks \<sigma>))"
proof (induction ks arbitrary: \<sigma>)
  case Nil
  then show ?case by simp
next
  case (Cons key ks)
  show ?case
  proof (cases "fa_operands (heap \<sigma>) F key")
    case None
    then show ?thesis by simp
  next
    case (Some t)
    obtain target v fdv where t: "t = (target, v, fdv)" by (cases t) auto
    obtain h dyn where oa: "object_assign_new (heap \<sigma>) fdv = (h, dyn)" by force
    let ?\<sigma>0 = "emit (CallFetchDynamicValueSaga v (JRef dyn) (fa_formId F)
                           (fa_datasourceId F) (fa_pluginId F) key) (\<sigma>\<lparr>heap := h\<rparr>)"
    obtain \<sigma>1 p where fs: "fo_start hp v dyn (fa_formId F) (fa_datasourceId F) (fa_pluginId F) key ?\<sigma>0 = (\<sigma>1, p)"
      by force
    have l: "fo_left p \<le> 3"
      using fo_start_left [of hp v dyn "fa_formId F" "fa_datasourceId F" "fa_pluginId F" key ?\<sigma>0] fs
      by simp
    show ?thesis
    proof (cases "p = FoReturn")
      case False
      then show ?thesis using Some t oa fs l by simp
    next
      case True
      show ?thesis
      proof (cases "js_assign (heap \<sigma>1) target ''fetchDynamicValues'' (JRef dyn)")
        case None
        then show ?thesis using \<open>fa_operands (heap \<sigma>) F key = Some t\<close> t oa fs True by simp
      next
        case (Some h1)
        have "fa_left (snd (fa_loop hp F ks (\<sigma>1\<lparr>heap := h1\<rparr>))) \<le> 3 * length (key # ks) + 1"
          using Cons.IH [of "\<sigma>1\<lparr>heap := h1\<rparr>"] by simp
        then show ?thesis
          using \<open>fa_operands (heap \<sigma>) F key = Some t\<close> t oa fs True Some Cons.IH [of "\<sigma>1\<lparr>heap := h1\<rparr>"]
          by simp
      qed
    qed
  qed
qed

lemma fa_resume_left_live:
  assumes "\<not> fa_done p" and "fa_live p"
  shows "fa_left (snd (fa_resume hp p r \<sigma>)) < fa_left p \<and> fa_live (snd (fa_resume hp p r \<sigma>))"
proof (cases p)
  case (FaFetching F ks target dyn q)
  obtain \<sigma>1 p1 where fr: "fo_resume hp q r \<sigma> = (\<sigma>1, p1)" by force
  have q: "q \<noteq> FoReturn" using assms(2) FaFetching by simp
  have l: "fo_left p1 < fo_left q" using fo_resume_left [OF q, of hp r \<sigma>] fr by simp
  show ?thesis
  proof (cases "p1 = FoReturn")
    case False
    then show ?thesis using FaFetching fr l by simp
  next
    case True
    show ?thesis
    proof (cases "js_assign (heap \<sigma>1) target ''fetchDynamicValues'' (JRef dyn)")
      case None
      then show ?thesis using FaFetching fr True by simp
    next
      case (Some h1)
      from fa_loop_left_live [of hp F ks "\<sigma>1\<lparr>heap := h1\<rparr>"] l
      show ?thesis using FaFetching fr True Some by simp
    qed
  qed
next
  case (FaPut F)
  then show ?thesis by (cases r) simp_all
next
  case FaReturn
  then show ?thesis using assms by simp
next
  case (FaThrown e)
  then show ?thesis using assms by simp
qed

lemma fa_run_done:
  "fa_live p \<Longrightarrow> fa_left p \<le> length rs \<Longrightarrow> fa_done (snd (fa_run hp rs (\<sigma>, p)))"
proof (induction rs arbitrary: \<sigma> p)
  case Nil
  then show ?case by (cases p) simp_all
next
  case (Cons r rs)
  show ?case
  proof (cases "fa_done p")
    case True
    then show ?thesis by simp
  next
    case False
    obtain \<sigma>1 p1 where s: "fa_resume hp p r \<sigma> = (\<sigma>1, p1)" by force
    from fa_resume_left_live [OF False Cons.prems(1), of hp r \<sigma>] s
    have "fa_left p1 < fa_left p" "fa_live p1" by simp_all
    then have "fa_left p1 \<le> length rs" using Cons.prems(2) by simp
    from Cons.IH [OF \<open>fa_live p1\<close> this] show ?thesis using False s by simp
  qed
qed

text \<open>
  C3. On an evaluation output given as a literal mapping whose entries for the keys of
  the pending mapping are distinct objects of the store, and with responses for every
  yield, whatever they are (values or exceptions): \<^verbatim>\<open>fetchDynamicValueSaga\<close> is called
  once for each key, in the order of \<^verbatim>\<open>Object.keys\<close>, each call with a newly
  allocated object; \<^verbatim>\<open>SET_FORM_EVALUATION\<close> is put once, with the evaluation output
  under the form id, as the last event, after all the calls; at the end the
  \<^verbatim>\<open>fetchDynamicValues\<close> of each field is the object its call was handed and returned;
  and the saga has returned, or the final put has thrown.
\<close>

theorem every_field_is_fetched_then_published:
  assumes eo: "evalOutput = JObj eo" and keys: "js_keys (heap \<sigma>) queue = Some K"
    and refs: "\<forall>k \<in> set K. \<exists>c < nxt (heap \<sigma>). lookup eo k = JRef c"
    and dist: "distinct (map (lookup eo) K)"
    and len: "3 * length K < length rs"
  shows "(\<exists>es. trace (fst (fetchDynamicValuesSaga hp queue fid evalOutput ds pl rs \<sigma>))
               = trace \<sigma> @ es @ [Put ''SET_FORM_EVALUATION'' (JObj [(fid, evalOutput)])]
            \<and> fetch_calls es = map (\<lambda>(a, k). (k, JRef a)) (enumerate (nxt (heap \<sigma>)) K)
            \<and> filter is_put es = [])
         \<and> (\<forall>(a, k) \<in> set (enumerate (nxt (heap \<sigma>)) K). \<forall>c. lookup eo k = JRef c \<longrightarrow>
               field (heap (fst (fetchDynamicValuesSaga hp queue fid evalOutput ds pl rs \<sigma>))) c
                 ''fetchDynamicValues'' = JRef a)
         \<and> (snd (fetchDynamicValuesSaga hp queue fid evalOutput ds pl rs \<sigma>) = FaReturn
            \<or> (\<exists>x. snd (fetchDynamicValuesSaga hp queue fid evalOutput ds pl rs \<sigma>)
                  = FaThrown (Thrown x)))"
proof -
  let ?F = "\<lparr>fa_queue = queue, fa_formId = fid, fa_evalOutput = evalOutput,
             fa_datasourceId = ds, fa_pluginId = pl\<rparr>"
  let ?n0 = "nxt (heap \<sigma>)"
  have qn: "\<not> nullish queue" using keys by (auto simp: js_keys_def split: if_splits)
  have pre: "fa_pre ?n0 eo K ?F" using eo qn refs dist by (simp add: fa_pre_def)
  have hd: "fa_head (trace \<sigma>) ?n0 eo [] \<sigma>"
    by (simp add: fa_head_def handed_def assigned_def)
  obtain \<sigma>0 p0 where s: "fa_loop hp ?F K \<sigma> = (\<sigma>0, p0)" by force
  have st: "fa_start hp ?F \<sigma> = (\<sigma>0, p0)" using keys s by (simp add: fa_start_def)
  have i0: "fa_inv (trace \<sigma>) ?n0 eo K ?F \<sigma>0 p0"
    using head_loop [OF pre _ hd, of K hp] s by simp
  have l0: "fa_left p0 \<le> length rs" and v0: "fa_live p0"
    using fa_loop_left_live [of hp ?F K \<sigma>] s len by simp_all
  obtain \<sigma>' p' where r: "fa_run hp rs (\<sigma>0, p0) = (\<sigma>', p')" by force
  have R: "fetchDynamicValuesSaga hp queue fid evalOutput ds pl rs \<sigma> = (\<sigma>', p')"
    using st r by (simp add: fetchDynamicValuesSaga_def)
  have inv: "fa_inv (trace \<sigma>) ?n0 eo K ?F \<sigma>' p'"
    using inv_run [OF pre i0, of hp rs] r by simp
  have dn: "fa_done p'" using fa_run_done [OF v0 l0, of hp \<sigma>0] r by simp
  have fin: "fa_finished (trace \<sigma>) ?n0 eo K ?F \<sigma>'" and out: "p' = FaReturn \<or> (\<exists>x. p' = FaThrown (Thrown x))"
    using inv dn by (cases p'; auto)+
  show ?thesis
    unfolding R using fin out
    by (simp add: fa_finished_def handed_def assigned_def)
qed

theorem every_field_is_fetched_then_published_witness:
  "two_evalOutput = JObj [(''A'', JRef 0), (''B'', JRef 2)]
   \<and> js_keys (heap (idle two_store)) two_evalOutput = Some [''A'', ''B'']
   \<and> lookup [(''A'', JRef 0), (''B'', JRef 2)] ''A'' = JRef 0
   \<and> lookup [(''A'', JRef 0), (''B'', JRef 2)] ''B'' = JRef 2
   \<and> nxt (heap (idle two_store)) = 4
   \<and> 3 * length [''A'', ''B''] < length two_responses
   \<and> (\<exists>es. trace (fst (fetchDynamicValuesSaga demo_helpers two_evalOutput ''f'' two_evalOutput
                ''d'' [] two_responses (idle two_store)))
              = es @ [Put ''SET_FORM_EVALUATION'' (JObj [(''f'', two_evalOutput)])]
            \<and> fetch_calls es = [(''A'', JRef 4), (''B'', JRef 5)]
            \<and> filter is_put es = [])
   \<and> field (heap (fst (fetchDynamicValuesSaga demo_helpers two_evalOutput ''f'' two_evalOutput
                ''d'' [] two_responses (idle two_store)))) 0 ''fetchDynamicValues'' = JRef 4
   \<and> field (heap (fst (fetchDynamicValuesSaga demo_helpers two_evalOutput ''f'' two_evalOutput
                ''d'' [] two_responses (idle two_store)))) 2 ''fetchDynamicValues'' = JRef 5
   \<and> objs (heap (fst (fetchDynamicValuesSaga demo_helpers two_evalOutput ''f'' two_evalOutput
                ''d'' [] two_responses (idle two_store)))) 4
       = [(''allowedToFetch'', JBool True), (''isLoading'', JBool False),
          (''config'', demo_config), (''evaluatedConfig'', demo_evaluatedConfig),
          (''hasStarted'', JBool True), (''data'', JArr [JNum 1, JNum 2]),
          (''hasFetchFailed'', JBool False)]
   \<and> objs (heap (fst (fetchDynamicValuesSaga demo_helpers two_evalOutput ''f'' two_evalOutput
                ''d'' [] two_responses (idle two_store)))) 5
       = [(''allowedToFetch'', JBool True), (''isLoading'', JBool False),
          (''config'', demo_config), (''evaluatedConfig'', demo_evaluatedConfig),
          (''hasStarted'', JBool True), (''hasFetchFailed'', JBool True), (''data'', JArr [])]
   \<and> snd (fetchDynamicValuesSaga demo_helpers two_evalOutput ''f'' two_evalOutput
                ''d'' [] two_responses (idle two_store)) = FaReturn"
proof -
  let ?R = "fetchDynamicValuesSaga demo_helpers two_evalOutput ''f'' two_evalOutput
                ''d'' [] two_responses (idle two_store)"
  let ?eo = "[(''A'', JRef 0), (''B'', JRef 2)]"
  have h1: "two_evalOutput = JObj ?eo" by (simp add: two_evalOutput_def)
  have h2: "js_keys (heap (idle two_store)) two_evalOutput = Some [''A'', ''B'']"
    by (simp add: js_keys_def two_evalOutput_def)
  have la: "lookup ?eo ''A'' = JRef 0" and lb: "lookup ?eo ''B'' = JRef 2"
    by (simp_all add: lookup_def)
  have nx: "nxt (heap (idle two_store)) = 4" by (simp add: idle_def two_store_def)
  have h3: "\<forall>k \<in> set [''A'', ''B'']. \<exists>c < nxt (heap (idle two_store)). lookup ?eo k = JRef c"
    using la lb nx by simp
  have h4: "distinct (map (lookup ?eo) [''A'', ''B''])" using la lb by simp
  have h5: "3 * length [''A'', ''B''] < length two_responses" by (simp add: two_responses_def)
  have tr0: "trace (idle two_store) = []" by (simp add: idle_def)
  have en: "enumerate 4 [''A'', ''B''] = [(4, ''A''), (5, ''B'')]" by (simp add: enumerate_simps)
  note main = every_field_is_fetched_then_published [OF h1 h2 h3 h4 h5, where hp = demo_helpers and fid = "''f''" and ds = "''d''"
      and pl = "[]"]
  have calls: "\<exists>es. trace (fst ?R) = es @ [Put ''SET_FORM_EVALUATION'' (JObj [(''f'', two_evalOutput)])]
            \<and> fetch_calls es = [(''A'', JRef 4), (''B'', JRef 5)] \<and> filter is_put es = []"
    using main [THEN conjunct1] by (simp add: nx tr0 en)
  have "\<forall>(a, k) \<in> set (enumerate (nxt (heap (idle two_store))) [''A'', ''B'']).
          \<forall>c. lookup ?eo k = JRef c \<longrightarrow> field (heap (fst ?R)) c ''fetchDynamicValues'' = JRef a"
    using main [THEN conjunct2, THEN conjunct1] .
  then have fa: "field (heap (fst ?R)) 0 ''fetchDynamicValues'' = JRef 4"
    and fb: "field (heap (fst ?R)) 2 ''fetchDynamicValues'' = JRef 5"
    using la lb by (simp_all add: nx en)
  have o4: "objs (heap (fst ?R)) 4
       = [(''allowedToFetch'', JBool True), (''isLoading'', JBool False),
          (''config'', demo_config), (''evaluatedConfig'', demo_evaluatedConfig),
          (''hasStarted'', JBool True), (''data'', JArr [JNum 1, JNum 2]),
          (''hasFetchFailed'', JBool False)]"
    by code_simp
  have o5: "objs (heap (fst ?R)) 5
       = [(''allowedToFetch'', JBool True), (''isLoading'', JBool False),
          (''config'', demo_config), (''evaluatedConfig'', demo_evaluatedConfig),
          (''hasStarted'', JBool True), (''hasFetchFailed'', JBool True), (''data'', JArr [])]"
    by code_simp
  have rt: "snd ?R = FaReturn" by code_simp
  show ?thesis using h1 h2 la lb nx h5 calls fa fb o4 o5 rt by simp
qed

end
